theory Spec2Isabelle
  imports Main "HOL-Library.Word" "HOL-Library.AList" "HOL-Library.Multiset"
begin

section \<open>The Unless operator of the coordinator's logical functions\<close>

text \<open>
  Source: \<^verbatim>\<open>src/coordinator/functions/logical/unless.go\<close>. The file holds three
  functions: \<^verbatim>\<open>exclusion\<close> (which left series survive), \<^verbatim>\<open>addValuesAtIndeces\<close>
  (the streaming loop) and \<^verbatim>\<open>Process\<close> (the orchestration). Everything else it
  touches (blocks, step iterators, builders, the controller, the signature
  function \<^verbatim>\<open>hashFunc\<close>) lives in other packages and is reached through
  interfaces only.
\<close>

subsection \<open>Data model\<close>

type_synonym uint64 = "64 word"

text \<open>
  Step values are \<^verbatim>\<open>float64\<close>. The operator only copies them, so a value is kept
  as its 64-bit pattern and no floating-point arithmetic is involved.
\<close>

type_synonym float64 = "64 word"

text \<open>
  The three package-level error values of the file, and one constructor for
  every error value that a collaborator (block, iterator, builder,
  controller) hands back.
\<close>

datatype error =
    ErrMismatchedBounds
  | ErrMismatchedStepCounts
  | ErrConflictingTags
  | ErrCollaborator string

text \<open>
  What a Go call can do: return normally, return an error, or panic with an
  index out of range, the panic that the indexing \<^verbatim>\<open>lSeriesMeta[idx]\<close> and
  \<^verbatim>\<open>values[idx]\<close> of the file can raise.
\<close>

datatype 'a result = Ok 'a | Err error | Panic

text \<open>
  Modelled from the spec: \<^verbatim>\<open>models.Tags\<close>, the tag key/value pairs of a
  series. The pairs are kept as a list; the operator never looks inside, it
  only hands the tags to the signature function.
\<close>

type_synonym Tags = "(string \<times> string) list"

text \<open>
  Modelled from the spec: \<^verbatim>\<open>block.SeriesMeta\<close>, the identity of one series. The
  source file reads only its \<^verbatim>\<open>Tags\<close> field.
\<close>

record SeriesMeta =
  Name :: string
  Tags :: Tags

text \<open>
  Modelled from the spec: \<^verbatim>\<open>block.Metadata\<close>, the block-level metadata (time
  bounds and resolution). The operator passes it to the builder untouched.
\<close>

record Metadata =
  Start :: int
  Duration :: int
  StepSize :: int

text \<open>
  Modelled from the spec: \<^verbatim>\<open>block.StepIter\<close>, a forward-only cursor.
  \<^verbatim>\<open>StepCount()\<close>, \<^verbatim>\<open>SeriesMeta()\<close> and \<^verbatim>\<open>Meta()\<close> are the three fields of
  the same name; \<open>steps\<close> lists, in order, what \<^verbatim>\<open>Current()\<close> yields after each
  successful \<^verbatim>\<open>Next()\<close>: an error, or the step's \<^verbatim>\<open>Values()\<close> vector.
  \<^verbatim>\<open>Next()\<close> answers false once the list is used up, so an iterator is
  taken to be finite. The reported step count is a field of its own, so the
  model does not assume that an iterator reports the number of steps it
  really has.
\<close>

record StepIter =
  StepCount :: int
  SeriesMeta :: "SeriesMeta list"
  Meta :: Metadata
  steps :: "(error + float64 list) list"

text \<open>
  Modelled from the spec: \<^verbatim>\<open>block.Block\<close> as this operator consumes it, that
  is, by what \<^verbatim>\<open>StepIter()\<close> returns.
\<close>

record Block =
  StepIter :: "error + StepIter"

text \<open>
  Modelled from the spec: \<^verbatim>\<open>block.Builder\<close>, a write-only accumulator. It
  remembers the metadata it was seeded with, the number of columns allocated
  by \<^verbatim>\<open>AddCols\<close>, and every \<^verbatim>\<open>AppendValue(index, value)\<close> call in the order
  made. Whether \<^verbatim>\<open>AddCols\<close> fails is the builder's own business: \<open>allocErr\<close>.
\<close>

record Builder =
  bMeta :: Metadata
  bSeriesMeta :: "SeriesMeta list"
  bCols :: int
  bAppended :: "(int \<times> float64) list"
  allocErr :: "int \<Rightarrow> error option"

text \<open>
  The block that \<^verbatim>\<open>Build()\<close> returns, described by what was written into the
  builder.
\<close>

record BuiltBlock =
  outMeta :: Metadata
  outSeriesMeta :: "SeriesMeta list"
  outCols :: int
  outAppended :: "(int \<times> float64) list"

text \<open>
  Modelled from the spec: \<^verbatim>\<open>transform.Controller\<close>. \<open>buildErr\<close> decides whether
  \<^verbatim>\<open>BlockBuilder\<close> fails for the given arguments, \<open>colsErr\<close> is handed to every
  builder it creates, and \<open>requested\<close> logs every \<^verbatim>\<open>BlockBuilder\<close> call.
\<close>

record Controller =
  buildErr :: "Metadata \<Rightarrow> SeriesMeta list \<Rightarrow> error option"
  colsErr :: "int \<Rightarrow> error option"
  requested :: "(Metadata \<times> SeriesMeta list) list"

text \<open>
  Modelled from the spec: \<^verbatim>\<open>VectorMatching\<close>, of which the operator reads the
  inclusion flag and the label names. The source holds it behind a pointer;
  the model is of nodes that carry a matching configuration (with a nil
  pointer \<^verbatim>\<open>exclusion\<close> would stop at its first line).
\<close>

record VectorMatching =
  On :: bool
  MatchingLabels :: "string list"

text \<open>
  \<^verbatim>\<open>BaseOp\<close> as \<^verbatim>\<open>NewUnlessOp\<close> fills it (the processor constructor is left
  out: it is \<^verbatim>\<open>NewUnlessNode\<close> below), and \<^verbatim>\<open>UnlessNode\<close>.
\<close>

record BaseOp =
  OperatorType :: string
  LNode :: string
  RNode :: string
  Matching :: VectorMatching

record UnlessNode =
  op :: BaseOp
  controller :: Controller

definition UnlessType :: string where
  "UnlessType = ''unless''"

definition NewUnlessOp :: "string \<Rightarrow> string \<Rightarrow> VectorMatching \<Rightarrow> BaseOp" where
  "NewUnlessOp lNode rNode matching =
     \<lparr>OperatorType = UnlessType, LNode = lNode, RNode = rNode, Matching = matching\<rparr>"

definition NewUnlessNode :: "BaseOp \<Rightarrow> Controller \<Rightarrow> UnlessNode" where
  "NewUnlessNode opr ctl = \<lparr>op = opr, controller = ctl\<rparr>"

subsection \<open>Collaborator operations\<close>

text \<open>
  The signature function \<^verbatim>\<open>hashFunc(on, names...)\<close> is defined in another file
  of the package. Every definition below takes it as the parameter \<open>hashFunc\<close>.
\<close>

type_synonym hashFunc = "bool \<Rightarrow> string list \<Rightarrow> Tags \<Rightarrow> uint64"

definition BlockBuilder ::
  "Controller \<Rightarrow> Metadata \<Rightarrow> SeriesMeta list \<Rightarrow> (error + Builder) \<times> Controller" where
  "BlockBuilder ctl meta seriesMeta =
     (let ctl' = ctl\<lparr>requested := requested ctl @ [(meta, seriesMeta)]\<rparr>
      in case buildErr ctl meta seriesMeta of
           Some err \<Rightarrow> (Inl err, ctl')
         | None \<Rightarrow>
             (Inr \<lparr>bMeta = meta, bSeriesMeta = seriesMeta, bCols = 0,
                   bAppended = [], allocErr = colsErr ctl\<rparr>, ctl'))"

definition AddCols :: "Builder \<Rightarrow> int \<Rightarrow> error + Builder" where
  "AddCols b n =
     (case allocErr b n of
        Some err \<Rightarrow> Inl err
      | None \<Rightarrow> Inr (b\<lparr>bCols := bCols b + n\<rparr>))"

definition AppendValue :: "Builder \<Rightarrow> int \<Rightarrow> float64 \<Rightarrow> Builder" where
  "AppendValue b index v = b\<lparr>bAppended := bAppended b @ [(index, v)]\<rparr>"

definition Build :: "Builder \<Rightarrow> BuiltBlock" where
  "Build b =
     \<lparr>outMeta = bMeta b, outSeriesMeta = bSeriesMeta b, outCols = bCols b,
      outAppended = bAppended b\<rparr>"

text \<open>The values appended at row (step) \<open>i\<close> of a built block, in append order.\<close>

definition column :: "BuiltBlock \<Rightarrow> int \<Rightarrow> float64 list" where
  "column blk i = map snd (filter (\<lambda>e. fst e = i) (outAppended blk))"

subsection \<open>exclusion\<close>

text \<open>
  \<^verbatim>\<open>leftSigs\<close> is a Go map from signature to \<^verbatim>\<open>int\<close>. It is kept as an
  association list with one entry per key; \<open>AList.update\<close> is the assignment
  \<^verbatim>\<open>leftSigs[k] = v\<close>. Indices are Go \<^verbatim>\<open>int\<close>s that count positions of a slice,
  so they never leave the 64-bit range and are modelled as \<open>int\<close>.

  First loop (lines 130-132): every left series, in order, records its index
  under its signature.
\<close>

fun recordLeft ::
  "(Tags \<Rightarrow> uint64) \<Rightarrow> SeriesMeta list \<Rightarrow> int \<Rightarrow> (uint64 \<times> int) list \<Rightarrow> (uint64 \<times> int) list" where
  "recordLeft idFunction [] idx leftSigs = leftSigs"
| "recordLeft idFunction (meta # rest) idx leftSigs =
     recordLeft idFunction rest (idx + 1)
       (AList.update (idFunction (Tags meta)) idx leftSigs)"

text \<open>
  Second loop (lines 134-141): a right series whose signature is a key of the
  map overwrites the entry with -1.
\<close>

fun markRight ::
  "(Tags \<Rightarrow> uint64) \<Rightarrow> SeriesMeta list \<Rightarrow> (uint64 \<times> int) list \<Rightarrow> (uint64 \<times> int) list" where
  "markRight idFunction [] leftSigs = leftSigs"
| "markRight idFunction (rs # rest) leftSigs =
     (let id = idFunction (Tags rs)
      in markRight idFunction rest
           (case map_of leftSigs id of
              Some _ \<Rightarrow> AList.update id (- 1) leftSigs
            | None \<Rightarrow> leftSigs))"

text \<open>
  Ranging over a Go map visits its entries in an order the runtime chooses.
  The choice is the parameter \<open>order\<close>, a list of keys: the entries of the
  keys listed are visited first, in the order listed, then the entries that
  are left. Every order of visiting a map arises from some \<open>order\<close> (the list
  of its keys in that order).
\<close>

fun rangeMap :: "uint64 list \<Rightarrow> (uint64 \<times> int) list \<Rightarrow> (uint64 \<times> int) list" where
  "rangeMap [] m = m"
| "rangeMap (k # order) m =
     (case map_of m k of
        None \<Rightarrow> rangeMap order m
      | Some v \<Rightarrow> (k, v) # rangeMap order (AList.delete k m))"

text \<open>Third loop (lines 143-148): the values above -1, in the order visited.\<close>

fun collectLeft :: "(uint64 \<times> int) list \<Rightarrow> int list \<Rightarrow> int list" where
  "collectLeft [] uniqueLeft = uniqueLeft"
| "collectLeft ((k, v) # rest) uniqueLeft =
     collectLeft rest (if v > - 1 then uniqueLeft @ [v] else uniqueLeft)"

definition exclusion ::
  "hashFunc \<Rightarrow> uint64 list \<Rightarrow> UnlessNode \<Rightarrow> SeriesMeta list \<Rightarrow> SeriesMeta list \<Rightarrow> int list" where
  "exclusion hashFunc order c lhs rhs =
     (let idFunction = hashFunc (On (Matching (op c))) (MatchingLabels (Matching (op c)));
          leftSigs = recordLeft idFunction lhs 0 [];
          leftSigs = markRight idFunction rhs leftSigs;
          uniqueLeft = collectLeft (rangeMap order leftSigs) []
      in sort uniqueLeft)"

subsection \<open>addValuesAtIndeces\<close>

text \<open>
  The inner loop (lines 78-80). \<^verbatim>\<open>values[idx]\<close> panics when \<open>idx\<close> is not an
  index of the vector.
\<close>

fun appendAt :: "int list \<Rightarrow> float64 list \<Rightarrow> int \<Rightarrow> Builder \<Rightarrow> Builder result" where
  "appendAt [] values index builder = Ok builder"
| "appendAt (idx # rest) values index builder =
     (if 0 \<le> idx \<and> idx < int (length values)
      then appendAt rest values index (AppendValue builder index (values ! nat idx))
      else Panic)"

text \<open>
  The outer loop (lines 71-82) over what the iterator still has to yield;
  \<open>index\<close> is the loop counter, which \<^verbatim>\<open>Process\<close> starts at 0.
\<close>

fun addValuesFrom ::
  "int list \<Rightarrow> (error + float64 list) list \<Rightarrow> int \<Rightarrow> Builder \<Rightarrow> Builder result" where
  "addValuesFrom idxArray [] index builder = Ok builder"
| "addValuesFrom idxArray (Inl err # rest) index builder = Err err"
| "addValuesFrom idxArray (Inr values # rest) index builder =
     (case appendAt idxArray values index builder of
        Ok builder' \<Rightarrow> addValuesFrom idxArray rest (index + 1) builder'
      | Err err \<Rightarrow> Err err
      | Panic \<Rightarrow> Panic)"

definition addValuesAtIndeces :: "int list \<Rightarrow> StepIter \<Rightarrow> Builder \<Rightarrow> Builder result" where
  "addValuesAtIndeces idxArray iter builder = addValuesFrom idxArray (steps iter) 0 builder"

subsection \<open>Process\<close>

text \<open>
  Lines 104-107: \<^verbatim>\<open>lSeriesMeta[idx]\<close> for every survivor; an index outside the
  slice panics (the result is \<open>None\<close>).
\<close>

fun takeMeta :: "SeriesMeta list \<Rightarrow> int list \<Rightarrow> SeriesMeta list option" where
  "takeMeta lSeriesMeta [] = Some []"
| "takeMeta lSeriesMeta (idx # rest) =
     (if 0 \<le> idx \<and> idx < int (length lSeriesMeta)
      then (case takeMeta lSeriesMeta rest of
              Some takenMeta \<Rightarrow> Some (lSeriesMeta ! nat idx # takenMeta)
            | None \<Rightarrow> None)
      else None)"

text \<open>
  \<^verbatim>\<open>Process\<close> returns the block or the error, and the controller as the call
  leaves it (its log of builder requests).
\<close>

definition Process ::
  "hashFunc \<Rightarrow> uint64 list \<Rightarrow> UnlessNode \<Rightarrow> Block \<Rightarrow> Block \<Rightarrow> BuiltBlock result \<times> Controller" where
  "Process hashFunc order c lhs rhs =
     (case StepIter lhs of
        Inl err \<Rightarrow> (Err err, controller c)
      | Inr lIter \<Rightarrow>
          (case StepIter rhs of
             Inl err \<Rightarrow> (Err err, controller c)
           | Inr rIter \<Rightarrow>
               if StepCount lIter \<noteq> StepCount rIter
               then (Err ErrMismatchedStepCounts, controller c)
               else
                 (let lSeriesMeta = SeriesMeta lIter;
                      rSeriesMeta = SeriesMeta rIter;
                      lIds = exclusion hashFunc order c lSeriesMeta rSeriesMeta
                  in case takeMeta lSeriesMeta lIds of
                       None \<Rightarrow> (Panic, controller c)
                     | Some takenMeta \<Rightarrow>
                         (case BlockBuilder (controller c) (Meta lIter) takenMeta of
                            (Inl err, ctl) \<Rightarrow> (Err err, ctl)
                          | (Inr builder, ctl) \<Rightarrow>
                              (case AddCols builder (StepCount lIter) of
                                 Inl err \<Rightarrow> (Err err, ctl)
                               | Inr builder \<Rightarrow>
                                   (case addValuesAtIndeces lIds lIter builder of
                                      Err err \<Rightarrow> (Err err, ctl)
                                    | Panic \<Rightarrow> (Panic, ctl)
                                    | Ok builder \<Rightarrow> (Ok (Build builder), ctl)))))))"

subsection \<open>Notions used to state the properties\<close>

text \<open>The signature of a series under the node's matching configuration.\<close>

definition sigOf :: "hashFunc \<Rightarrow> UnlessNode \<Rightarrow> SeriesMeta \<Rightarrow> uint64" where
  "sigOf hashFunc c meta =
     hashFunc (On (Matching (op c))) (MatchingLabels (Matching (op c))) (Tags meta)"

text \<open>
  Position \<open>j\<close> of the left list is the last one with its signature: no later
  left series has the same signature.
\<close>

definition lastAt :: "(Tags \<Rightarrow> uint64) \<Rightarrow> SeriesMeta list \<Rightarrow> nat \<Rightarrow> bool" where
  "lastAt f xs j \<longleftrightarrow> f (Tags (xs ! j)) \<notin> (\<lambda>l. f (Tags l)) ` set (drop (Suc j) xs)"

definition survives ::
  "(Tags \<Rightarrow> uint64) \<Rightarrow> SeriesMeta list \<Rightarrow> SeriesMeta list \<Rightarrow> nat \<Rightarrow> bool" where
  "survives f lhs rhs j \<longleftrightarrow>
     lastAt f lhs j \<and> f (Tags (lhs ! j)) \<notin> (\<lambda>r. f (Tags r)) ` set rhs"

definition survivors ::
  "(Tags \<Rightarrow> uint64) \<Rightarrow> SeriesMeta list \<Rightarrow> SeriesMeta list \<Rightarrow> nat list" where
  "survivors f lhs rhs = filter (survives f lhs rhs) [0..<length lhs]"

text \<open>The map after the first two loops, and the values the third loop keeps.\<close>

definition marked ::
  "(Tags \<Rightarrow> uint64) \<Rightarrow> SeriesMeta list \<Rightarrow> SeriesMeta list \<Rightarrow> (uint64 \<times> int) list" where
  "marked f lhs rhs = markRight f rhs (recordLeft f lhs 0 [])"

definition liveValues :: "(uint64 \<times> int) list \<Rightarrow> int list" where
  "liveValues es = map snd (filter (\<lambda>e. - 1 < snd e) es)"

text \<open>Every index of \<open>ids\<close> is a position of the vector \<open>vals\<close>.\<close>

definition inBounds :: "int list \<Rightarrow> 'a list \<Rightarrow> bool" where
  "inBounds ids vals \<longleftrightarrow> list_all (\<lambda>i. 0 \<le> i \<and> i < int (length vals)) ids"

text \<open>
  The \<^verbatim>\<open>AppendValue\<close> calls that streaming the value vectors \<open>valss\<close> makes for
  the indices \<open>ids\<close>, the first vector at row \<open>index\<close>.
\<close>

fun rowsFrom :: "int list \<Rightarrow> float64 list list \<Rightarrow> int \<Rightarrow> (int \<times> float64) list" where
  "rowsFrom ids [] index = []"
| "rowsFrom ids (vals # rest) index =
     map (\<lambda>i. (index, vals ! nat i)) ids @ rowsFrom ids rest (index + 1)"

text \<open>
  What \<^verbatim>\<open>Process\<close> hands to the controller and gets back: the projected
  series metadata, the controller after one builder request, and the builder
  after \<^verbatim>\<open>AddCols\<close>.
\<close>

definition openBuilder :: "Controller \<Rightarrow> Metadata \<Rightarrow> SeriesMeta list \<Rightarrow> int \<Rightarrow> Builder" where
  "openBuilder ctl meta takenMeta n =
     \<lparr>bMeta = meta, bSeriesMeta = takenMeta, bCols = n, bAppended = [], allocErr = colsErr ctl\<rparr>"

definition asked :: "Controller \<Rightarrow> Metadata \<Rightarrow> SeriesMeta list \<Rightarrow> Controller" where
  "asked ctl meta takenMeta = ctl\<lparr>requested := requested ctl @ [(meta, takenMeta)]\<rparr>"

definition takenOf :: "hashFunc \<Rightarrow> uint64 list \<Rightarrow> UnlessNode \<Rightarrow> StepIter \<Rightarrow> StepIter \<Rightarrow> SeriesMeta list" where
  "takenOf hashFunc order c lIter rIter =
     map (\<lambda>i. SeriesMeta lIter ! nat i)
       (exclusion hashFunc order c (SeriesMeta lIter) (SeriesMeta rIter))"

subsection \<open>Sample inputs\<close>

text \<open>
  A signature function to run the definitions on: it adds up a code of every
  tag pair whose name is among \<open>names\<close> (when \<open>on\<close>) or is not (otherwise).
\<close>

definition strCode :: "string \<Rightarrow> uint64" where
  "strCode s = foldl (\<lambda>h ch. h * 31 + of_char ch) 7 s"

definition sampleHash :: hashFunc where
  "sampleHash on names tags =
     sum_list (map (\<lambda>kv. strCode (fst kv) * 17 + strCode (snd kv))
                   (filter (\<lambda>kv. (fst kv \<in> set names) = on) tags))"

definition sampleController :: Controller where
  "sampleController = \<lparr>buildErr = (\<lambda>meta seriesMeta. None), colsErr = (\<lambda>n. None), requested = []\<rparr>"

definition sampleNode :: UnlessNode where
  "sampleNode =
     NewUnlessNode (NewUnlessOp ''lhs'' ''rhs'' \<lparr>On = True, MatchingLabels = [''tag'']\<rparr>)
       sampleController"

definition sampleMeta :: Metadata where
  "sampleMeta = \<lparr>Start = 0, Duration = 20, StepSize = 10\<rparr>"

definition seriesA :: SeriesMeta where
  "seriesA = \<lparr>Name = ''A'', Tags = [(''tag'', ''x'')]\<rparr>"

definition seriesB :: SeriesMeta where
  "seriesB = \<lparr>Name = ''B'', Tags = [(''tag'', ''y'')]\<rparr>"

definition seriesC :: SeriesMeta where
  "seriesC = \<lparr>Name = ''C'', Tags = [(''tag'', ''x'')]\<rparr>"

definition seriesR :: SeriesMeta where
  "seriesR = \<lparr>Name = ''R'', Tags = [(''tag'', ''z'')]\<rparr>"

text \<open>
  An iterator that reports \<open>n\<close> steps over the given series and yields \<open>sts\<close>,
  and the block that opens it.
\<close>

definition sampleIter :: "int \<Rightarrow> SeriesMeta list \<Rightarrow> (error + float64 list) list \<Rightarrow> StepIter" where
  "sampleIter n seriesMeta sts =
     \<lparr>StepCount = n, SeriesMeta = seriesMeta, Meta = sampleMeta, steps = sts\<rparr>"

definition sampleBlock :: "int \<Rightarrow> SeriesMeta list \<Rightarrow> (error + float64 list) list \<Rightarrow> Block" where
  "sampleBlock n seriesMeta sts = \<lparr>StepIter = Inr (sampleIter n seriesMeta sts)\<rparr>"

section \<open>Properties of exclusion\<close>

text \<open>
  The map after the first loop holds, under each signature, the last left
  index with that signature; the second loop turns the entries of the right
  signatures into -1; the third keeps the rest, and sorting makes the result
  the ascending list of the surviving positions (\<open>exclusion_survivors\<close>).
\<close>

lemma recordLeft_snoc:
  "recordLeft f (xs @ [x]) i m =
     AList.update (f (Tags x)) (i + int (length xs)) (recordLeft f xs i m)"
  by (induction xs arbitrary: i m) (simp_all add: algebra_simps)

lemma distinct_recordLeft:
  "distinct (map fst m) \<Longrightarrow> distinct (map fst (recordLeft f xs i m))"
  by (induction xs arbitrary: i m) (simp_all add: distinct_update)

lemma distinct_markRight:
  "distinct (map fst m) \<Longrightarrow> distinct (map fst (markRight f rs m))"
  by (induction rs arbitrary: m) (simp_all add: distinct_update Let_def split: option.splits)

lemma lastAt_snoc_old:
  "j < length xs \<Longrightarrow> lastAt f (xs @ [x]) j \<longleftrightarrow> lastAt f xs j \<and> f (Tags x) \<noteq> f (Tags (xs ! j))"
  unfolding lastAt_def by (auto simp add: nth_append)

lemma lastAt_snoc_new: "lastAt f (xs @ [x]) (length xs)"
  unfolding lastAt_def by simp

lemma map_of_recordLeft:
  "map_of (recordLeft f xs 0 []) k = Some v \<longleftrightarrow>
     (\<exists>j < length xs. v = int j \<and> f (Tags (xs ! j)) = k \<and> lastAt f xs j)"
proof (induction xs arbitrary: k v rule: rev_induct)
  case Nil
  show ?case by simp
next
  case (snoc x xs)
  let ?R = "\<lambda>ys. \<exists>j < length ys. v = int j \<and> f (Tags (ys ! j)) = k \<and> lastAt f ys j"
  show ?case
  proof (cases "f (Tags x) = k")
    case True
    have "?R (xs @ [x]) \<longleftrightarrow> v = int (length xs)"
    proof
      assume "?R (xs @ [x])"
      then obtain j where j: "j < length (xs @ [x])" "v = int j"
        "f (Tags ((xs @ [x]) ! j)) = k" "lastAt f (xs @ [x]) j" by blast
      show "v = int (length xs)"
      proof (cases "j < length xs")
        case True
        with j(3,4) \<open>f (Tags x) = k\<close> have False
          by (simp add: lastAt_snoc_old nth_append)
        then show ?thesis ..
      next
        case False
        with j(1) have "j = length xs" by simp
        with j(2) show ?thesis by simp
      qed
    next
      assume "v = int (length xs)"
      with True lastAt_snoc_new [of f xs x] show "?R (xs @ [x])"
        by (intro exI [of _ "length xs"]) simp
    qed
    moreover have "map_of (recordLeft f (xs @ [x]) 0 []) k = Some v \<longleftrightarrow> v = int (length xs)"
      using True by (auto simp add: recordLeft_snoc update_conv')
    ultimately show ?thesis by simp
  next
    case False
    have "?R (xs @ [x]) \<longleftrightarrow> ?R xs"
    proof
      assume "?R (xs @ [x])"
      then obtain j where j: "j < length (xs @ [x])" "v = int j"
        "f (Tags ((xs @ [x]) ! j)) = k" "lastAt f (xs @ [x]) j" by blast
      from j(3) False have "j \<noteq> length xs" by auto
      with j(1) have lt: "j < length xs" by simp
      with j(3,4) have "f (Tags (xs ! j)) = k" "lastAt f xs j"
        by (simp_all add: lastAt_snoc_old nth_append)
      with lt j(2) show "?R xs" by blast
    next
      assume "?R xs"
      then obtain j where j: "j < length xs" "v = int j"
        "f (Tags (xs ! j)) = k" "lastAt f xs j" by blast
      with False have "f (Tags ((xs @ [x]) ! j)) = k" "lastAt f (xs @ [x]) j"
        by (simp_all add: lastAt_snoc_old nth_append)
      moreover have "j < length (xs @ [x])" using j(1) by simp
      ultimately show "?R (xs @ [x])" using j(2) by blast
    qed
    moreover have "map_of (recordLeft f (xs @ [x]) 0 []) k = map_of (recordLeft f xs 0 []) k"
      using False by (simp add: recordLeft_snoc update_conv')
    ultimately show ?thesis using snoc by simp
  qed
qed

lemma map_of_markRight:
  "map_of (markRight f rs m) k =
     (if k \<in> dom (map_of m) \<and> k \<in> (\<lambda>r. f (Tags r)) ` set rs then Some (- 1) else map_of m k)"
proof (induction rs arbitrary: m)
  case Nil
  show ?case by simp
next
  case (Cons r rs)
  show ?case
  proof (cases "map_of m (f (Tags r))")
    case None
    then have "markRight f (r # rs) m = markRight f rs m" by simp
    moreover from None have "f (Tags r) \<notin> dom (map_of m)" by (simp add: domIff)
    ultimately show ?thesis using Cons [of m] by auto
  next
    case (Some w)
    then have "markRight f (r # rs) m = markRight f rs (AList.update (f (Tags r)) (- 1) m)"
      by simp
    moreover from Some have "f (Tags r) \<in> dom (map_of m)" by (simp add: domIff)
    ultimately show ?thesis using Cons [of "AList.update (f (Tags r)) (- 1) m"]
      by (auto simp: update_conv' domIff)
  qed
qed

lemma collectLeft_eq:
  "collectLeft es acc = acc @ map snd (filter (\<lambda>e. snd e > - 1) es)"
  by (induction es acc rule: collectLeft.induct) simp_all

lemma mset_delete_entry:
  "distinct (map fst m) \<Longrightarrow> map_of m k = Some v \<Longrightarrow>
     add_mset (k, v) (mset (AList.delete k m)) = mset m"
proof (induction m)
  case Nil
  then show ?case by simp
next
  case (Cons e m)
  show ?case
  proof (cases "fst e = k")
    case True
    with Cons.prems have e: "e = (k, v)" by (cases e) simp
    from Cons.prems True have "k \<notin> fst ` set m" by simp
    then have "AList.delete k m = m" by simp
    with e show ?thesis by simp
  next
    case False
    with Cons.prems have "add_mset (k, v) (mset (AList.delete k m)) = mset m"
      by (intro Cons.IH) auto
    with False show ?thesis by simp
  qed
qed

lemma mset_rangeMap:
  "distinct (map fst m) \<Longrightarrow> mset (rangeMap order m) = mset m"
proof (induction order arbitrary: m)
  case Nil
  show ?case by simp
next
  case (Cons k order)
  show ?case
  proof (cases "map_of m k")
    case None
    with Cons show ?thesis by simp
  next
    case (Some v)
    from Cons.prems have "distinct (map fst (AList.delete k m))"
      by (rule distinct_delete)
    then have "mset (rangeMap order (AList.delete k m)) = mset (AList.delete k m)"
      by (rule Cons.IH)
    with Some mset_delete_entry [OF Cons.prems Some] show ?thesis by simp
  qed
qed

lemma distinct_marked: "distinct (map fst (marked f lhs rhs))"
  unfolding marked_def by (intro distinct_markRight distinct_recordLeft) simp

lemma map_of_marked:
  "- 1 < v \<Longrightarrow> map_of (marked f lhs rhs) k = Some v \<longleftrightarrow>
     (\<exists>j < length lhs. v = int j \<and> f (Tags (lhs ! j)) = k \<and> survives f lhs rhs j)"
proof -
  assume v: "- 1 < v"
  let ?m1 = "recordLeft f lhs 0 []"
  show ?thesis
  proof (cases "k \<in> (\<lambda>r. f (Tags r)) ` set rhs")
    case True
    have "map_of (marked f lhs rhs) k \<noteq> Some v"
      using True v unfolding marked_def map_of_markRight
      by (cases "map_of ?m1 k") (auto simp: domIff)
    moreover have "\<not> (\<exists>j < length lhs. v = int j \<and> f (Tags (lhs ! j)) = k \<and> survives f lhs rhs j)"
      using True unfolding survives_def by blast
    ultimately show ?thesis by simp
  next
    case False
    then have "map_of (marked f lhs rhs) k = map_of ?m1 k"
      unfolding marked_def map_of_markRight by simp
    moreover have "(\<exists>j < length lhs. v = int j \<and> f (Tags (lhs ! j)) = k \<and> survives f lhs rhs j)
       \<longleftrightarrow> (\<exists>j < length lhs. v = int j \<and> f (Tags (lhs ! j)) = k \<and> lastAt f lhs j)"
      using False unfolding survives_def by blast
    ultimately show ?thesis by (simp add: map_of_recordLeft)
  qed
qed

lemma entry_marked:
  "(k, v) \<in> set (marked f lhs rhs) \<longleftrightarrow> map_of (marked f lhs rhs) k = Some v"
  using distinct_marked [of f lhs rhs] by simp

lemma set_liveValues_marked:
  "set (liveValues (marked f lhs rhs)) = int ` {j. j < length lhs \<and> survives f lhs rhs j}"
proof (rule set_eqI)
  fix v
  have "v \<in> set (liveValues (marked f lhs rhs)) \<longleftrightarrow>
          (\<exists>k. (k, v) \<in> set (marked f lhs rhs) \<and> - 1 < v)"
    unfolding liveValues_def by force
  also have "\<dots> \<longleftrightarrow> (- 1 < v \<and> (\<exists>k. map_of (marked f lhs rhs) k = Some v))"
    unfolding entry_marked by blast
  also have "\<dots> \<longleftrightarrow> (- 1 < v \<and> (\<exists>k. \<exists>j < length lhs. v = int j \<and> f (Tags (lhs ! j)) = k \<and> survives f lhs rhs j))"
    using map_of_marked [of v f lhs rhs] by blast
  also have "\<dots> \<longleftrightarrow> v \<in> int ` {j. j < length lhs \<and> survives f lhs rhs j}"
    by auto
  finally show "v \<in> set (liveValues (marked f lhs rhs)) \<longleftrightarrow>
      v \<in> int ` {j. j < length lhs \<and> survives f lhs rhs j}" .
qed

lemma distinct_liveValues_marked: "distinct (liveValues (marked f lhs rhs))"
proof -
  let ?m = "marked f lhs rhs"
  have dm: "distinct ?m"
    using distinct_marked [of f lhs rhs] by (rule distinct_map [THEN iffD1, THEN conjunct1])
  have "inj_on snd (set (filter (\<lambda>e. - 1 < snd e) ?m))"
  proof (rule inj_onI)
    fix a b
    assume a: "a \<in> set (filter (\<lambda>e. - 1 < snd e) ?m)"
      and b: "b \<in> set (filter (\<lambda>e. - 1 < snd e) ?m)" and eq: "snd a = snd b"
    from a have "map_of ?m (fst a) = Some (snd a)" "- 1 < snd a"
      using entry_marked [of "fst a" "snd a" f lhs rhs] by simp_all
    then have fa: "fst a = f (Tags (lhs ! nat (snd a)))"
      using map_of_marked [of "snd a" f lhs rhs "fst a"] by auto
    from b have "map_of ?m (fst b) = Some (snd b)" "- 1 < snd b"
      using entry_marked [of "fst b" "snd b" f lhs rhs] by simp_all
    then have "fst b = f (Tags (lhs ! nat (snd b)))"
      using map_of_marked [of "snd b" f lhs rhs "fst b"] by auto
    with fa eq show "a = b" by (simp add: prod_eq_iff)
  qed
  with dm show ?thesis unfolding liveValues_def by (simp add: distinct_map)
qed

lemma mset_liveValues_rangeMap:
  "distinct (map fst m) \<Longrightarrow> mset (liveValues (rangeMap order m)) = mset (liveValues m)"
  unfolding liveValues_def by (simp add: mset_rangeMap)

lemma exclusion_unfold:
  "exclusion hashFunc order c lhs rhs =
     sort (liveValues (rangeMap order
       (marked (hashFunc (On (Matching (op c))) (MatchingLabels (Matching (op c)))) lhs rhs)))"
  unfolding exclusion_def marked_def liveValues_def Let_def collectLeft_eq by simp

lemma exclusion_survivors:
  "exclusion hashFunc order c lhs rhs =
     map int (survivors (hashFunc (On (Matching (op c))) (MatchingLabels (Matching (op c)))) lhs rhs)"
proof -
  let ?f = "hashFunc (On (Matching (op c))) (MatchingLabels (Matching (op c)))"
  let ?vs = "liveValues (rangeMap order (marked ?f lhs rhs))"
  have ms: "mset ?vs = mset (liveValues (marked ?f lhs rhs))"
    by (rule mset_liveValues_rangeMap) (rule distinct_marked)
  have "distinct ?vs"
    using mset_eq_imp_distinct_iff [OF ms] distinct_liveValues_marked by blast
  then have d: "distinct (sort ?vs)" by simp
  have "set ?vs = set (liveValues (marked ?f lhs rhs))"
    using ms by (rule mset_eq_setD)
  then have s: "set (sort ?vs) = set (map int (survivors ?f lhs rhs))"
    unfolding survivors_def by (auto simp: set_liveValues_marked)
  have "sorted (map int (survivors ?f lhs rhs))"
    unfolding survivors_def by (simp add: sorted_map sorted_wrt_filter sorted_wrt_mono_rel [of _ "(<)"])
  moreover have "distinct (map int (survivors ?f lhs rhs))"
    unfolding survivors_def by (simp add: distinct_map)
  ultimately have "sort ?vs = map int (survivors ?f lhs rhs)"
    using d s by (intro sorted_distinct_set_unique) simp_all
  then show ?thesis by (simp add: exclusion_unfold)
qed

section \<open>Properties of the streaming loop\<close>

lemma inBounds_simps [simp]:
  "inBounds [] vals"
  "inBounds (i # ids) vals \<longleftrightarrow> 0 \<le> i \<and> i < int (length vals) \<and> inBounds ids vals"
  by (simp_all add: inBounds_def)

lemma takeMeta_inBounds:
  "inBounds ids ms \<Longrightarrow> takeMeta ms ids = Some (map (\<lambda>i. ms ! nat i) ids)"
  by (induction ids) simp_all

lemma takeMeta_None: "takeMeta ms ids = None \<longleftrightarrow> \<not> inBounds ids ms"
  by (induction ids) (auto split: option.splits)

lemma appendAt_inBounds:
  "inBounds ids vals \<Longrightarrow>
     appendAt ids vals index b =
       Ok (b\<lparr>bAppended := bAppended b @ map (\<lambda>i. (index, vals ! nat i)) ids\<rparr>)"
  by (induction ids arbitrary: b) (simp_all add: AppendValue_def)

lemma appendAt_outOfBounds: "\<not> inBounds ids vals \<Longrightarrow> appendAt ids vals index b = Panic"
  by (induction ids arbitrary: b) (simp_all split: if_splits)

lemma addValuesFrom_inBounds:
  "list_all (inBounds ids) valss \<Longrightarrow>
     addValuesFrom ids (map Inr valss) index b =
       Ok (b\<lparr>bAppended := bAppended b @ rowsFrom ids valss index\<rparr>)"
  by (induction valss arbitrary: index b) (simp_all add: appendAt_inBounds)

lemma addValuesFrom_Ok:
  "addValuesFrom ids sts index b = Ok b' \<Longrightarrow>
     \<exists>valss. sts = map Inr valss \<and> list_all (inBounds ids) valss"
proof (induction ids sts index b rule: addValuesFrom.induct)
  case (1 idxArray index builder)
  show ?case by simp
next
  case (2 idxArray err rest index builder)
  then show ?case by simp
next
  case (3 idxArray vals rest index builder)
  show ?case
  proof (cases "inBounds idxArray vals")
    case True
    let ?b = "builder\<lparr>bAppended := bAppended builder @ map (\<lambda>i. (index, vals ! nat i)) idxArray\<rparr>"
    from True have ap: "appendAt idxArray vals index builder = Ok ?b"
      by (rule appendAt_inBounds)
    with "3.prems" have "addValuesFrom idxArray rest (index + 1) ?b = Ok b'" by simp
    with "3.IH" [OF ap] obtain valss where
      "rest = map Inr valss" "list_all (inBounds idxArray) valss" by blast
    with True show ?thesis by (intro exI [of _ "vals # valss"]) simp
  next
    case False
    then have "appendAt idxArray vals index builder = Panic"
      by (rule appendAt_outOfBounds)
    with "3.prems" show ?thesis by simp
  qed
qed

lemma row_rowsFrom_before:
  "r < index \<Longrightarrow> filter (\<lambda>e. fst e = r) (rowsFrom ids valss index) = []"
  by (induction valss arbitrary: index) (simp_all add: filter_map comp_def)

lemma column_rowsFrom:
  "s < length valss \<Longrightarrow>
     map snd (filter (\<lambda>e. fst e = index + int s) (rowsFrom ids valss index)) =
       map (\<lambda>i. valss ! s ! nat i) ids"
proof (induction valss arbitrary: index s)
  case Nil
  then show ?case by simp
next
  case (Cons vals rest)
  show ?case
  proof (cases s)
    case 0
    have "filter (\<lambda>e. fst e = index) (rowsFrom ids rest (index + 1)) = []"
      by (rule row_rowsFrom_before) simp
    with 0 show ?thesis by (simp add: filter_map comp_def)
  next
    case (Suc s')
    with Cons.prems have "s' < length rest" by simp
    then have "map snd (filter (\<lambda>e. fst e = index + 1 + int s') (rowsFrom ids rest (index + 1))) =
       map (\<lambda>i. rest ! s' ! nat i) ids" by (rule Cons.IH)
    moreover have "index + 1 + int s' = index + int s" using Suc by simp
    ultimately show ?thesis using Suc by (simp add: filter_map comp_def)
  qed
qed

section \<open>Properties of Process\<close>

lemma inBounds_exclusion: "inBounds (exclusion hashFunc order c lhs rhs) lhs"
  unfolding exclusion_survivors inBounds_def survivors_def
  by (simp add: list_all_iff)

lemma map_nth_filter_upt:
  "map ((!) xs) (filter P [0..<length xs]) = nths xs {i. P i}"
proof (induction xs rule: rev_induct)
  case Nil
  show ?case by simp
next
  case (snoc x xs)
  have "map ((!) (xs @ [x])) (filter P [0..<length xs]) = map ((!) xs) (filter P [0..<length xs])"
    by (rule map_cong) (simp_all add: nth_append)
  with snoc show ?case by (simp add: nths_append)
qed

lemma Process_opened:
  assumes "StepIter lhs = Inr lIter" and "StepIter rhs = Inr rIter"
    and "StepCount lIter = StepCount rIter"
  shows "Process hashFunc order c lhs rhs =
     (case buildErr (controller c) (Meta lIter) (takenOf hashFunc order c lIter rIter) of
        Some err \<Rightarrow> (Err err, asked (controller c) (Meta lIter) (takenOf hashFunc order c lIter rIter))
      | None \<Rightarrow>
         (case colsErr (controller c) (StepCount lIter) of
            Some err \<Rightarrow> (Err err, asked (controller c) (Meta lIter) (takenOf hashFunc order c lIter rIter))
          | None \<Rightarrow>
             (case addValuesFrom (exclusion hashFunc order c (SeriesMeta lIter) (SeriesMeta rIter))
                     (steps lIter) 0
                     (openBuilder (controller c) (Meta lIter) (takenOf hashFunc order c lIter rIter) (StepCount lIter)) of
                Err err \<Rightarrow> (Err err, asked (controller c) (Meta lIter) (takenOf hashFunc order c lIter rIter))
              | Panic \<Rightarrow> (Panic, asked (controller c) (Meta lIter) (takenOf hashFunc order c lIter rIter))
              | Ok builder \<Rightarrow> (Ok (Build builder), asked (controller c) (Meta lIter) (takenOf hashFunc order c lIter rIter)))))"
proof -
  have tm: "takeMeta (SeriesMeta lIter) (exclusion hashFunc order c (SeriesMeta lIter) (SeriesMeta rIter))
      = Some (takenOf hashFunc order c lIter rIter)"
    unfolding takenOf_def by (rule takeMeta_inBounds) (rule inBounds_exclusion)
  show ?thesis
    unfolding Process_def asked_def openBuilder_def
    using assms
    by (simp add: tm Let_def BlockBuilder_def AddCols_def addValuesAtIndeces_def
          split: option.splits)
qed

lemma addValuesFrom_no_panic:
  "(\<forall>vals. Inr vals \<in> set sts \<longrightarrow> inBounds ids vals) \<Longrightarrow>
     addValuesFrom ids sts index b \<noteq> Panic"
proof (induction ids sts index b rule: addValuesFrom.induct)
  case (1 idxArray index builder)
  show ?case by simp
next
  case (2 idxArray err rest index builder)
  show ?case by simp
next
  case (3 idxArray vals rest index builder)
  from "3.prems" have ib: "inBounds idxArray vals" by simp
  let ?b = "builder\<lparr>bAppended := bAppended builder @ map (\<lambda>i. (index, vals ! nat i)) idxArray\<rparr>"
  from ib have ap: "appendAt idxArray vals index builder = Ok ?b"
    by (rule appendAt_inBounds)
  from "3.prems" have "\<forall>vs. Inr vs \<in> set rest \<longrightarrow> inBounds idxArray vs" by simp
  with "3.IH" [OF ap] have "addValuesFrom idxArray rest (index + 1) ?b \<noteq> Panic" by blast
  with ap show ?case by simp
qed

lemma Process_order_irrelevant:
  "Process hashFunc order c lhs rhs = Process hashFunc [] c lhs rhs"
  unfolding Process_def exclusion_survivors ..

lemma takeMeta_exclusion_nths:
  "takeMeta lhs (exclusion hashFunc order c lhs rhs) =
     Some (nths lhs (nat ` set (exclusion hashFunc order c lhs rhs)))"
proof -
  let ?f = "hashFunc (On (Matching (op c))) (MatchingLabels (Matching (op c)))"
  let ?P = "\<lambda>j. j < length lhs \<and> survives ?f lhs rhs j"
  have fl: "filter ?P [0..<length lhs] = survivors ?f lhs rhs"
    unfolding survivors_def by (rule filter_cong) simp_all
  have "nat ` set (exclusion hashFunc order c lhs rhs) = {j. ?P j}"
    unfolding exclusion_survivors survivors_def by (auto simp: image_image)
  moreover have "map (\<lambda>i. lhs ! nat i) (exclusion hashFunc order c lhs rhs) = nths lhs {j. ?P j}"
    unfolding map_nth_filter_upt [symmetric] fl exclusion_survivors by (simp add: comp_def)
  ultimately show ?thesis
    using takeMeta_inBounds [OF inBounds_exclusion [of hashFunc order c lhs rhs]] by simp
qed

lemma inBounds_length: "length vals = length ms \<Longrightarrow> inBounds ids vals = inBounds ids ms"
  by (simp add: inBounds_def)

lemma Process_Ok_I:
  assumes l: "StepIter lhs = Inr lIter" and r: "StepIter rhs = Inr rIter"
    and n: "StepCount lIter = StepCount rIter"
    and b: "buildErr (controller c) (Meta lIter) (takenOf hashFunc order c lIter rIter) = None"
    and a: "colsErr (controller c) (StepCount lIter) = None"
    and s: "steps lIter = map Inr valss"
    and v: "list_all (inBounds (exclusion hashFunc order c (SeriesMeta lIter) (SeriesMeta rIter))) valss"
  shows "Process hashFunc order c lhs rhs =
     (Ok \<lparr>outMeta = Meta lIter, outSeriesMeta = takenOf hashFunc order c lIter rIter,
          outCols = StepCount lIter,
          outAppended = rowsFrom (exclusion hashFunc order c (SeriesMeta lIter) (SeriesMeta rIter)) valss 0\<rparr>,
      asked (controller c) (Meta lIter) (takenOf hashFunc order c lIter rIter))"
proof -
  let ?ids = "exclusion hashFunc order c (SeriesMeta lIter) (SeriesMeta rIter)"
  let ?b = "openBuilder (controller c) (Meta lIter) (takenOf hashFunc order c lIter rIter) (StepCount lIter)"
  have "addValuesFrom ?ids (steps lIter) 0 ?b = Ok (?b\<lparr>bAppended := bAppended ?b @ rowsFrom ?ids valss 0\<rparr>)"
    unfolding s using v by (rule addValuesFrom_inBounds)
  then show ?thesis
    unfolding Process_opened [OF l r n]
    by (simp add: b a Build_def openBuilder_def)
qed

lemma Process_Ok_D:
  assumes p: "fst (Process hashFunc order c lhs rhs) = Ok blk"
    and l: "StepIter lhs = Inr lIter" and r: "StepIter rhs = Inr rIter"
  shows "\<exists>valss. steps lIter = map Inr valss \<and>
      list_all (inBounds (exclusion hashFunc order c (SeriesMeta lIter) (SeriesMeta rIter))) valss \<and>
      blk = \<lparr>outMeta = Meta lIter, outSeriesMeta = takenOf hashFunc order c lIter rIter,
          outCols = StepCount lIter,
          outAppended = rowsFrom (exclusion hashFunc order c (SeriesMeta lIter) (SeriesMeta rIter)) valss 0\<rparr>"
proof -
  let ?ids = "exclusion hashFunc order c (SeriesMeta lIter) (SeriesMeta rIter)"
  let ?b = "openBuilder (controller c) (Meta lIter) (takenOf hashFunc order c lIter rIter) (StepCount lIter)"
  have n: "StepCount lIter = StepCount rIter"
  proof (rule ccontr)
    assume "StepCount lIter \<noteq> StepCount rIter"
    with l r have "fst (Process hashFunc order c lhs rhs) = Err ErrMismatchedStepCounts"
      unfolding Process_def by simp
    with p show False by simp
  qed
  from p obtain b where ok: "addValuesFrom ?ids (steps lIter) 0 ?b = Ok b" and blk: "blk = Build b"
    unfolding Process_opened [OF l r n]
    by (auto split: option.splits result.splits)
  from addValuesFrom_Ok [OF ok] obtain valss where
    s: "steps lIter = map Inr valss" and v: "list_all (inBounds ?ids) valss" by blast
  from v have "addValuesFrom ?ids (map Inr valss) 0 ?b =
      Ok (?b\<lparr>bAppended := bAppended ?b @ rowsFrom ?ids valss 0\<rparr>)"
    by (rule addValuesFrom_inBounds)
  with ok s have "b = ?b\<lparr>bAppended := bAppended ?b @ rowsFrom ?ids valss 0\<rparr>" by simp
  with blk have "blk = \<lparr>outMeta = Meta lIter, outSeriesMeta = takenOf hashFunc order c lIter rIter,
          outCols = StepCount lIter, outAppended = rowsFrom ?ids valss 0\<rparr>"
    by (simp add: Build_def openBuilder_def)
  with s v show ?thesis by blast
qed

lemma rowsFrom_Nil [simp]: "rowsFrom [] valss index = []"
  by (induction valss arbitrary: index) simp_all

lemma exclusion_all_matched:
  assumes "sigOf hashFunc c ` set lhs \<subseteq> sigOf hashFunc c ` set rhs"
  shows "exclusion hashFunc order c lhs rhs = []"
proof -
  let ?f = "hashFunc (On (Matching (op c))) (MatchingLabels (Matching (op c)))"
  have "\<not> survives ?f lhs rhs j" if "j \<in> set [0..<length lhs]" for j
  proof -
    from that have "lhs ! j \<in> set lhs" by simp
    then have "sigOf hashFunc c (lhs ! j) \<in> sigOf hashFunc c ` set rhs"
      using assms by blast
    then show ?thesis unfolding survives_def sigOf_def by simp
  qed
  then have "\<forall>j \<in> set [0..<length lhs]. \<not> survives ?f lhs rhs j" by blast
  then have "survivors ?f lhs rhs = []"
    unfolding survivors_def by (rule filter_False)
  then show ?thesis by (simp add: exclusion_survivors)
qed

lemma addValuesFrom_stops_at_error:
  "list_all (inBounds ids) valss \<Longrightarrow>
     addValuesFrom ids (map Inr valss @ Inl err # rest) index b = Err err"
  by (induction valss arbitrary: index b) (simp_all add: appendAt_inBounds)

text \<open>
  Which indices \<^verbatim>\<open>exclusion\<close> returns: those of the left series whose signature
  occurs neither on the right nor later on the left.
\<close>

lemma exclusion_membership:
  "i \<in> set (exclusion hashFunc order c lhs rhs) \<longleftrightarrow>
     0 \<le> i \<and> i < int (length lhs) \<and>
     sigOf hashFunc c (lhs ! nat i) \<notin> sigOf hashFunc c ` set rhs \<and>
     sigOf hashFunc c (lhs ! nat i) \<notin> sigOf hashFunc c ` set (drop (Suc (nat i)) lhs)"
proof -
  let ?f = "hashFunc (On (Matching (op c))) (MatchingLabels (Matching (op c)))"
  have s: "sigOf hashFunc c = (\<lambda>m. ?f (Tags m))" by (rule ext) (simp add: sigOf_def)
  have "i \<in> set (exclusion hashFunc order c lhs rhs) \<longleftrightarrow>
      (\<exists>j. i = int j \<and> j < length lhs \<and> survives ?f lhs rhs j)"
    unfolding exclusion_survivors survivors_def by auto
  also have "\<dots> \<longleftrightarrow> 0 \<le> i \<and> i < int (length lhs) \<and> survives ?f lhs rhs (nat i)"
  proof
    assume "\<exists>j. i = int j \<and> j < length lhs \<and> survives ?f lhs rhs j"
    then obtain j where "i = int j" "j < length lhs" "survives ?f lhs rhs j" by blast
    then show "0 \<le> i \<and> i < int (length lhs) \<and> survives ?f lhs rhs (nat i)" by simp
  next
    assume a: "0 \<le> i \<and> i < int (length lhs) \<and> survives ?f lhs rhs (nat i)"
    then have "i = int (nat i)" "nat i < length lhs" by (simp_all add: nat_less_iff)
    with a show "\<exists>j. i = int j \<and> j < length lhs \<and> survives ?f lhs rhs j" by blast
  qed
  finally have "i \<in> set (exclusion hashFunc order c lhs rhs) \<longleftrightarrow>
      0 \<le> i \<and> i < int (length lhs) \<and> survives ?f lhs rhs (nat i)" .
  then show ?thesis by (simp add: survives_def lastAt_def s conj_ac)
qed

lemma exclusion_three_collapse:
  assumes "sigOf hashFunc c sc = sigOf hashFunc c sa" and "sigOf hashFunc c sb \<noteq> sigOf hashFunc c sa"
  shows "exclusion hashFunc order c [sa, sb, sc] [] = [1, 2]"
proof -
  let ?f = "hashFunc (On (Matching (op c))) (MatchingLabels (Matching (op c)))"
  from assms have ac: "?f (Tags sc) = ?f (Tags sa)" and ba: "?f (Tags sb) \<noteq> ?f (Tags sa)"
    by (simp_all add: sigOf_def)
  have u: "[0..<length [sa, sb, sc]] = [0, 1, 2]" by (simp add: upt_rec)
  have 0: "\<not> survives ?f [sa, sb, sc] [] 0"
    by (simp add: survives_def lastAt_def ac)
  have 1: "survives ?f [sa, sb, sc] [] 1"
    using ba by (simp add: survives_def lastAt_def ac)
  have 2: "survives ?f [sa, sb, sc] [] 2"
    by (simp add: survives_def lastAt_def)
  have "survivors ?f [sa, sb, sc] [] = [1, 2]"
    unfolding survivors_def u using 0 1 2 by simp
  then show ?thesis by (simp add: exclusion_survivors)
qed

text \<open>
  With an empty right side and pairwise distinct left signatures every left
  series survives, and the block that \<^verbatim>\<open>Process\<close> returns has the series of
  the left block.
\<close>

lemma exclusion_distinct_empty_right:
  assumes "distinct (map (sigOf hashFunc c) lhs)"
  shows "exclusion hashFunc order c lhs [] = map int [0..<length lhs]"
proof -
  let ?f = "hashFunc (On (Matching (op c))) (MatchingLabels (Matching (op c)))"
  have s: "sigOf hashFunc c = (\<lambda>m. ?f (Tags m))" by (rule ext) (simp add: sigOf_def)
  have "survives ?f lhs [] j" if "j \<in> set [0..<length lhs]" for j
  proof -
    from that have j: "j < length lhs" by simp
    then have "take j lhs @ lhs ! j # drop (Suc j) lhs = lhs"
      by (rule id_take_nth_drop [symmetric])
    then have "distinct (map (sigOf hashFunc c) (take j lhs @ lhs ! j # drop (Suc j) lhs))"
      using assms by (simp only:)
    then have "sigOf hashFunc c (lhs ! j) \<notin> sigOf hashFunc c ` set (drop (Suc j) lhs)"
      by simp
    then show ?thesis unfolding survives_def lastAt_def s by simp
  qed
  then have "\<forall>j \<in> set [0..<length lhs]. survives ?f lhs [] j" by blast
  then have "filter (survives ?f lhs []) [0..<length lhs] = [0..<length lhs]"
    by (rule filter_True)
  then show ?thesis by (simp add: exclusion_survivors survivors_def)
qed

lemma Process_noop_distinct:
  assumes "StepIter lhs = Inr lIter" and "StepIter rhs = Inr rIter"
    and "SeriesMeta rIter = []"
    and "distinct (map (sigOf hashFunc c) (SeriesMeta lIter))"
    and "fst (Process hashFunc order c lhs rhs) = Ok blk"
  shows "outSeriesMeta blk = SeriesMeta lIter"
proof -
  have e: "exclusion hashFunc order c (SeriesMeta lIter) [] = map int [0..<length (SeriesMeta lIter)]"
    using assms(4) by (rule exclusion_distinct_empty_right)
  from Process_Ok_D [OF assms(5,1,2)]
  have "outSeriesMeta blk = takenOf hashFunc order c lIter rIter" by auto
  then show ?thesis
    by (simp add: takenOf_def assms(3) e comp_def map_nth)
qed

text \<open>
  An earlier left series with the signature of a later one is never returned;
  the series of a returned block are the left series at the returned indices.
\<close>

lemma exclusion_drops_earlier_duplicate:
  assumes "i < j" and "j < length lhs"
    and "sigOf hashFunc c (lhs ! i) = sigOf hashFunc c (lhs ! j)"
  shows "int i \<notin> set (exclusion hashFunc order c lhs rhs)"
proof
  assume "int i \<in> set (exclusion hashFunc order c lhs rhs)"
  then have n: "sigOf hashFunc c (lhs ! i) \<notin> sigOf hashFunc c ` set (drop (Suc i) lhs)"
    unfolding exclusion_membership by simp
  from assms(1,2) have "j - Suc i < length (drop (Suc i) lhs)" by simp
  then have "drop (Suc i) lhs ! (j - Suc i) \<in> set (drop (Suc i) lhs)" by (rule nth_mem)
  moreover from assms(1,2) have "drop (Suc i) lhs ! (j - Suc i) = lhs ! j" by simp
  ultimately have "lhs ! j \<in> set (drop (Suc i) lhs)" by simp
  then have "sigOf hashFunc c (lhs ! j) \<in> sigOf hashFunc c ` set (drop (Suc i) lhs)" by (rule imageI)
  with n assms(3) show False by simp
qed

lemma exclusion_keeps_last_iff:
  assumes "j < length lhs"
  shows "int j \<in> set (exclusion hashFunc order c lhs rhs) \<longleftrightarrow>
     sigOf hashFunc c (lhs ! j) \<notin> sigOf hashFunc c ` set (drop (Suc j) lhs) \<and>
     sigOf hashFunc c (lhs ! j) \<notin> sigOf hashFunc c ` set rhs"
  unfolding exclusion_membership using assms by auto

lemma Process_series_nths:
  assumes "StepIter lhs = Inr lIter" and "StepIter rhs = Inr rIter"
    and "fst (Process hashFunc order c lhs rhs) = Ok blk"
  shows "outSeriesMeta blk =
     nths (SeriesMeta lIter)
       (nat ` set (exclusion hashFunc order c (SeriesMeta lIter) (SeriesMeta rIter)))"
proof -
  let ?ids = "exclusion hashFunc order c (SeriesMeta lIter) (SeriesMeta rIter)"
  from Process_Ok_D [OF assms(3,1,2)]
  have "outSeriesMeta blk = takenOf hashFunc order c lIter rIter" by auto
  moreover have "takeMeta (SeriesMeta lIter) ?ids = Some (takenOf hashFunc order c lIter rIter)"
    unfolding takenOf_def by (rule takeMeta_inBounds) (rule inBounds_exclusion)
  moreover have "takeMeta (SeriesMeta lIter) ?ids = Some (nths (SeriesMeta lIter) (nat ` set ?ids))"
    by (rule takeMeta_exclusion_nths)
  ultimately show ?thesis by simp
qed

lemma nat_image_exclusion:
  "i \<in> nat ` set (exclusion hashFunc order c lhs rhs) \<longleftrightarrow>
     int i \<in> set (exclusion hashFunc order c lhs rhs)"
proof
  assume "i \<in> nat ` set (exclusion hashFunc order c lhs rhs)"
  then obtain x where x: "x \<in> set (exclusion hashFunc order c lhs rhs)" and i: "i = nat x" by blast
  from x have "0 \<le> x" unfolding exclusion_membership by simp
  with i have "x = int i" by simp
  with x show "int i \<in> set (exclusion hashFunc order c lhs rhs)" by simp
next
  assume "int i \<in> set (exclusion hashFunc order c lhs rhs)"
  then have "nat (int i) \<in> nat ` set (exclusion hashFunc order c lhs rhs)" by (rule imageI)
  then show "i \<in> nat ` set (exclusion hashFunc order c lhs rhs)" by simp
qed

section \<open>The claims\<close>

text \<open>
  C5. For every pair of left and right series-metadata lists, the list that
  \<^verbatim>\<open>exclusion\<close> returns is strictly ascending (so it has no duplicates), every
  element is an index into the left list, and the list is the same whatever
  order the runtime ranges over the map in. Projected onto the left list it
  yields the surviving series in the order they have in the left list.
\<close>

theorem exclusion_strictly_ascending:
  "sorted_wrt (<) (exclusion hashFunc order c lhs rhs) \<and>
   set (exclusion hashFunc order c lhs rhs) \<subseteq> {0..<int (length lhs)} \<and>
   exclusion hashFunc order' c lhs rhs = exclusion hashFunc order c lhs rhs \<and>
   takeMeta lhs (exclusion hashFunc order c lhs rhs) =
     Some (nths lhs (nat ` set (exclusion hashFunc order c lhs rhs)))"
proof -
  let ?f = "hashFunc (On (Matching (op c))) (MatchingLabels (Matching (op c)))"
  have "sorted_wrt (<) (map int (survivors ?f lhs rhs))"
    unfolding survivors_def by (simp add: sorted_wrt_map sorted_wrt_filter)
  then have "sorted_wrt (<) (exclusion hashFunc order c lhs rhs)"
    by (simp add: exclusion_survivors)
  moreover have "set (exclusion hashFunc order c lhs rhs) \<subseteq> {0..<int (length lhs)}"
    unfolding exclusion_survivors survivors_def by auto
  moreover have "exclusion hashFunc order' c lhs rhs = exclusion hashFunc order c lhs rhs"
    by (simp add: exclusion_survivors)
  ultimately show ?thesis using takeMeta_exclusion_nths by blast
qed

text \<open>
  C4. When both iterators open and report unequal step counts, \<^verbatim>\<open>Process\<close>
  returns the mismatched-step-counts error and no block, and the controller
  is left as it was: no builder has been requested.
\<close>

theorem Process_mismatched_step_counts:
  assumes "StepIter lhs = Inr lIter" and "StepIter rhs = Inr rIter"
    and "StepCount lIter \<noteq> StepCount rIter"
  shows "Process hashFunc order c lhs rhs = (Err ErrMismatchedStepCounts, controller c) \<and>
         requested (snd (Process hashFunc order c lhs rhs)) = requested (controller c)"
  using assms unfolding Process_def by simp

theorem Process_mismatched_step_counts_witness:
  "Process sampleHash [] sampleNode (sampleBlock 5 [seriesA] []) (sampleBlock 6 [seriesA] []) =
     (Err ErrMismatchedStepCounts, sampleController)"
proof -
  have l: "StepIter (sampleBlock 5 [seriesA] []) = Inr (sampleIter 5 [seriesA] [])"
    by (simp add: sampleBlock_def)
  have r: "StepIter (sampleBlock 6 [seriesA] []) = Inr (sampleIter 6 [seriesA] [])"
    by (simp add: sampleBlock_def)
  have ne: "StepCount (sampleIter 5 [seriesA] []) \<noteq> StepCount (sampleIter 6 [seriesA] [])"
    by (simp add: sampleIter_def)
  show ?thesis
    using Process_mismatched_step_counts [OF l r ne, of sampleHash "[]" sampleNode]
    by (simp add: sampleNode_def NewUnlessNode_def)
qed

text \<open>
  C9. Every index that \<^verbatim>\<open>exclusion\<close> returns is a position of the left
  series-metadata list. Hence, when every value vector the left iterator
  yields is as long as that list, neither \<^verbatim>\<open>lSeriesMeta[idx]\<close> nor
  \<^verbatim>\<open>values[idx]\<close> is out of range: \<^verbatim>\<open>Process\<close> does not panic.
\<close>

theorem Process_indexing_in_bounds:
  assumes "StepIter lhs = Inr lIter"
    and "\<forall>vals. Inr vals \<in> set (steps lIter) \<longrightarrow> length vals = length (SeriesMeta lIter)"
  shows "set (exclusion hashFunc order c (SeriesMeta lIter) rmeta) \<subseteq> {0..<int (length (SeriesMeta lIter))}
     \<and> fst (Process hashFunc order c lhs rhs) \<noteq> Panic"
proof
  show "set (exclusion hashFunc order c (SeriesMeta lIter) rmeta) \<subseteq> {0..<int (length (SeriesMeta lIter))}"
    unfolding exclusion_survivors survivors_def by auto
next
  show "fst (Process hashFunc order c lhs rhs) \<noteq> Panic"
  proof (cases "StepIter rhs")
    case (Inl e)
    with assms(1) show ?thesis unfolding Process_def by simp
  next
    case (Inr rIter)
    show ?thesis
    proof (cases "StepCount lIter = StepCount rIter")
      case False
      with assms(1) Inr show ?thesis unfolding Process_def by simp
    next
      case True
      let ?ids = "exclusion hashFunc order c (SeriesMeta lIter) (SeriesMeta rIter)"
      have "inBounds ?ids vals" if "Inr vals \<in> set (steps lIter)" for vals
      proof -
        from that assms(2) have "length vals = length (SeriesMeta lIter)" by blast
        then have "inBounds ?ids vals = inBounds ?ids (SeriesMeta lIter)"
          by (rule inBounds_length)
        then show ?thesis
          using inBounds_exclusion [of hashFunc order c "SeriesMeta lIter" "SeriesMeta rIter"]
          by blast
      qed
      then have "\<forall>vals. Inr vals \<in> set (steps lIter) \<longrightarrow> inBounds ?ids vals" by blast
      then have "addValuesFrom ?ids (steps lIter) 0 b \<noteq> Panic" for b
        by (rule addValuesFrom_no_panic)
      then show ?thesis
        unfolding Process_opened [OF assms(1) Inr True]
        by (simp split: option.splits result.splits)
    qed
  qed
qed

theorem Process_indexing_in_bounds_witness:
  "set (exclusion sampleHash [] sampleNode [seriesA, seriesB, seriesC] [seriesR]) \<subseteq> {0..<3} \<and>
   fst (Process sampleHash [] sampleNode
          (sampleBlock 2 [seriesA, seriesB, seriesC] [Inr [1, 2, 3], Inr [4, 5, 6]])
          (sampleBlock 2 [seriesR] [Inr [7], Inr [8]])) \<noteq> Panic"
proof -
  let ?it = "sampleIter 2 [seriesA, seriesB, seriesC] [Inr [1, 2, 3], Inr [4, 5, 6]]"
  have l: "StepIter (sampleBlock 2 [seriesA, seriesB, seriesC] [Inr [1, 2, 3], Inr [4, 5, 6]]) = Inr ?it"
    by (simp add: sampleBlock_def)
  have v: "\<forall>vals. Inr vals \<in> set (steps ?it) \<longrightarrow> length vals = length (SeriesMeta ?it)"
    by (auto simp add: sampleIter_def)
  have m: "SeriesMeta ?it = [seriesA, seriesB, seriesC]"
    by (simp add: sampleIter_def)
  show ?thesis
    using Process_indexing_in_bounds [OF l v, of sampleHash "[]" sampleNode "[seriesR]"
        "sampleBlock 2 [seriesR] [Inr [7], Inr [8]]"]
    by (simp add: m)
qed

text \<open>
  C10. Two right blocks whose iterators report the same step count and the
  same series metadata give the same result against any left block: the
  right iterator's steps (and its block metadata) are never read.
\<close>

theorem Process_ignores_right_values:
  assumes "StepIter rhs = Inr rIter" and "StepIter rhs' = Inr rIter'"
    and "StepCount rIter' = StepCount rIter" and "SeriesMeta rIter' = SeriesMeta rIter"
  shows "Process hashFunc order c lhs rhs' = Process hashFunc order c lhs rhs"
proof (cases "StepIter lhs")
  case (Inl e)
  then show ?thesis unfolding Process_def by simp
next
  case (Inr lIter)
  with assms show ?thesis unfolding Process_def by simp
qed

theorem Process_ignores_right_values_witness:
  "Process sampleHash [] sampleNode
     (sampleBlock 2 [seriesA, seriesB] [Inr [1, 2], Inr [3, 4]])
     (sampleBlock 2 [seriesR] [Inr [100], Inl (ErrCollaborator ''unread'')]) =
   Process sampleHash [] sampleNode
     (sampleBlock 2 [seriesA, seriesB] [Inr [1, 2], Inr [3, 4]])
     (sampleBlock 2 [seriesR] [Inr [7], Inr [8]])"
proof -
  have r: "StepIter (sampleBlock 2 [seriesR] [Inr [7], Inr [8]]) =
      Inr (sampleIter 2 [seriesR] [Inr [7], Inr [8]])"
    by (simp add: sampleBlock_def)
  have r': "StepIter (sampleBlock 2 [seriesR] [Inr [100], Inl (ErrCollaborator ''unread'')]) =
      Inr (sampleIter 2 [seriesR] [Inr [100], Inl (ErrCollaborator ''unread'')])"
    by (simp add: sampleBlock_def)
  have n: "StepCount (sampleIter 2 [seriesR] [Inr [100], Inl (ErrCollaborator ''unread'')]) =
      StepCount (sampleIter 2 [seriesR] [Inr [7], Inr [8]])"
    by (simp add: sampleIter_def)
  have m: "SeriesMeta (sampleIter 2 [seriesR] [Inr [100], Inl (ErrCollaborator ''unread'')]) =
      SeriesMeta (sampleIter 2 [seriesR] [Inr [7], Inr [8]])"
    by (simp add: sampleIter_def)
  show ?thesis
    by (rule Process_ignores_right_values [OF r r' n m])
qed

text \<open>
  C3. Whenever \<^verbatim>\<open>Process\<close> returns a block, its series metadata is the left
  series-metadata list read at the survivor indices, which are strictly
  ascending positions of that list; and for every step of the left iterator
  the values appended at that row are the step's values at the survivor
  indices, in the same order, unchanged.
\<close>

theorem Process_value_fidelity:
  assumes "fst (Process hashFunc order c lhs rhs) = Ok blk"
    and "StepIter lhs = Inr lIter" and "StepIter rhs = Inr rIter"
    and "lIds = exclusion hashFunc order c (SeriesMeta lIter) (SeriesMeta rIter)"
  shows "outSeriesMeta blk = map (\<lambda>idx. SeriesMeta lIter ! nat idx) lIds \<and>
         sorted_wrt (<) lIds \<and> inBounds lIds (SeriesMeta lIter) \<and>
         (\<forall>s < length (steps lIter). \<exists>vals.
            steps lIter ! s = Inr vals \<and> inBounds lIds vals \<and>
            column blk (int s) = map (\<lambda>idx. vals ! nat idx) lIds)"
proof -
  from Process_Ok_D [OF assms(1-3)] obtain valss where
    s: "steps lIter = map Inr valss" and v: "list_all (inBounds lIds) valss" and
    blk: "blk = \<lparr>outMeta = Meta lIter, outSeriesMeta = takenOf hashFunc order c lIter rIter,
          outCols = StepCount lIter, outAppended = rowsFrom lIds valss 0\<rparr>"
    unfolding assms(4) by blast
  have 1: "outSeriesMeta blk = map (\<lambda>idx. SeriesMeta lIter ! nat idx) lIds"
    by (simp add: blk takenOf_def assms(4))
  have 2: "sorted_wrt (<) lIds"
    unfolding assms(4) exclusion_survivors survivors_def
    by (simp add: sorted_wrt_map sorted_wrt_filter)
  have 3: "inBounds lIds (SeriesMeta lIter)"
    unfolding assms(4) by (rule inBounds_exclusion)
  have 4: "\<exists>vals. steps lIter ! k = Inr vals \<and> inBounds lIds vals \<and>
            column blk (int k) = map (\<lambda>idx. vals ! nat idx) lIds"
    if k: "k < length (steps lIter)" for k
  proof -
    from k s have kl: "k < length valss" by simp
    with s have a: "steps lIter ! k = Inr (valss ! k)" by simp
    from v kl have b: "inBounds lIds (valss ! k)" by (simp add: list_all_length)
    have "column blk (0 + int k) = map (\<lambda>idx. valss ! k ! nat idx) lIds"
      unfolding column_def blk using column_rowsFrom [OF kl, of 0 lIds] by simp
    with a b show ?thesis by simp
  qed
  from 1 2 3 4 show ?thesis by blast
qed

theorem Process_value_fidelity_witness:
  "fst (Process sampleHash [] sampleNode
          (sampleBlock 2 [seriesA, seriesB, seriesC] [Inr [1, 2, 3], Inr [4, 5, 6]])
          (sampleBlock 2 [seriesR] [Inr [7], Inr [8]])) =
     Ok \<lparr>outMeta = sampleMeta, outSeriesMeta = [seriesB, seriesC], outCols = 2,
       outAppended = [(0, 2), (0, 3), (1, 5), (1, 6)]\<rparr> \<and>
   outSeriesMeta \<lparr>outMeta = sampleMeta, outSeriesMeta = [seriesB, seriesC], outCols = 2,
       outAppended = [(0, 2), (0, 3), (1, 5), (1, 6)]\<rparr> = [seriesB, seriesC] \<and>
   column \<lparr>outMeta = sampleMeta, outSeriesMeta = [seriesB, seriesC], outCols = 2,
       outAppended = [(0, 2), (0, 3), (1, 5), (1, 6)]\<rparr> 1 = [5, 6]"
proof -
  let ?lIter = "sampleIter 2 [seriesA, seriesB, seriesC] [Inr [1, 2, 3], Inr [4, 5, 6]]"
  let ?rIter = "sampleIter 2 [seriesR] [Inr [7], Inr [8]]"
  let ?lhs = "sampleBlock 2 [seriesA, seriesB, seriesC] [Inr [1, 2, 3], Inr [4, 5, 6]]"
  let ?rhs = "sampleBlock 2 [seriesR] [Inr [7], Inr [8]]"
  let ?blk = "\<lparr>outMeta = sampleMeta, outSeriesMeta = [seriesB, seriesC], outCols = 2,
       outAppended = [(0, 2), (0, 3), (1, 5), (1, 6)]\<rparr>"
  have p: "fst (Process sampleHash [] sampleNode ?lhs ?rhs) = Ok ?blk"
    by code_simp
  have l: "StepIter ?lhs = Inr ?lIter" by (simp add: sampleBlock_def)
  have r: "StepIter ?rhs = Inr ?rIter" by (simp add: sampleBlock_def)
  have e: "[1, 2] = exclusion sampleHash [] sampleNode (SeriesMeta ?lIter) (SeriesMeta ?rIter)"
    by code_simp
  note t = Process_value_fidelity [OF p l r e]
  from t have m: "outSeriesMeta ?blk = map (\<lambda>idx. SeriesMeta ?lIter ! nat idx) [1, 2]"
    by (rule conjunct1)
  from t have "\<forall>s < length (steps ?lIter). \<exists>vals.
       steps ?lIter ! s = Inr vals \<and> inBounds [1, 2] vals \<and>
       column ?blk (int s) = map (\<lambda>idx. vals ! nat idx) [1, 2]"
    by blast
  moreover have "1 < length (steps ?lIter)" by (simp add: sampleIter_def)
  ultimately obtain vals where "steps ?lIter ! 1 = Inr vals"
    and c: "column ?blk (int 1) = map (\<lambda>idx. vals ! nat idx) [1, 2]" by blast
  then have "vals = [4, 5, 6]" by (simp add: sampleIter_def)
  with c have "column ?blk 1 = [5, 6]" by simp
  with m p show ?thesis by (simp add: sampleIter_def)
qed

text \<open>
  C7. When every left signature also appears on the right (in particular
  when the left side has no series), the survivor list is empty, and then,
  with both iterators opened on equal step counts and no collaborator
  reporting an error, \<^verbatim>\<open>Process\<close> returns a block, not an error: it has no
  series, nothing appended, and as many columns as the left iterator's step
  count.
\<close>

theorem Process_full_exclusion:
  assumes "StepIter lhs = Inr lIter" and "StepIter rhs = Inr rIter"
    and "StepCount lIter = StepCount rIter"
    and "sigOf hashFunc c ` set (SeriesMeta lIter) \<subseteq> sigOf hashFunc c ` set (SeriesMeta rIter)"
    and "buildErr (controller c) (Meta lIter) [] = None"
    and "colsErr (controller c) (StepCount lIter) = None"
    and "steps lIter = map Inr valss"
  shows "exclusion hashFunc order c (SeriesMeta lIter) (SeriesMeta rIter) = [] \<and>
         fst (Process hashFunc order c lhs rhs) =
           Ok \<lparr>outMeta = Meta lIter, outSeriesMeta = [], outCols = StepCount lIter,
               outAppended = []\<rparr>"
proof -
  have e: "exclusion hashFunc order c (SeriesMeta lIter) (SeriesMeta rIter) = []"
    using assms(4) by (rule exclusion_all_matched)
  then have t: "takenOf hashFunc order c lIter rIter = []"
    by (simp add: takenOf_def)
  have v: "list_all (inBounds (exclusion hashFunc order c (SeriesMeta lIter) (SeriesMeta rIter))) valss"
    by (simp add: e list_all_iff)
  from assms(5) have b: "buildErr (controller c) (Meta lIter) (takenOf hashFunc order c lIter rIter) = None"
    by (simp add: t)
  from Process_Ok_I [OF assms(1-3) b assms(6,7) v] e t show ?thesis by simp
qed

theorem Process_full_exclusion_witness:
  "exclusion sampleHash [] sampleNode [seriesA, seriesC] [seriesA] = [] \<and>
   fst (Process sampleHash [] sampleNode
          (sampleBlock 2 [seriesA, seriesC] [Inr [1, 2], Inr [3, 4]])
          (sampleBlock 2 [seriesA] [Inr [7], Inr [8]])) =
     Ok \<lparr>outMeta = sampleMeta, outSeriesMeta = [], outCols = 2, outAppended = []\<rparr>"
proof -
  let ?lIter = "sampleIter 2 [seriesA, seriesC] [Inr [1, 2], Inr [3, 4]]"
  let ?rIter = "sampleIter 2 [seriesA] [Inr [7], Inr [8]]"
  have l: "StepIter (sampleBlock 2 [seriesA, seriesC] [Inr [1, 2], Inr [3, 4]]) = Inr ?lIter"
    by (simp add: sampleBlock_def)
  have r: "StepIter (sampleBlock 2 [seriesA] [Inr [7], Inr [8]]) = Inr ?rIter"
    by (simp add: sampleBlock_def)
  have n: "StepCount ?lIter = StepCount ?rIter" by (simp add: sampleIter_def)
  have s: "sigOf sampleHash sampleNode ` set (SeriesMeta ?lIter) \<subseteq>
           sigOf sampleHash sampleNode ` set (SeriesMeta ?rIter)"
    by (simp add: sampleIter_def sigOf_def seriesA_def seriesC_def)
  have b: "buildErr (controller sampleNode) (Meta ?lIter) [] = None"
    by (simp add: sampleNode_def NewUnlessNode_def sampleController_def)
  have a: "colsErr (controller sampleNode) (StepCount ?lIter) = None"
    by (simp add: sampleNode_def NewUnlessNode_def sampleController_def)
  have v: "steps ?lIter = map Inr [[1, 2], [3, 4]]" by (simp add: sampleIter_def)
  show ?thesis
    using Process_full_exclusion [OF l r n s b a v, of "[]"]
    by (simp add: sampleIter_def)
qed

text \<open>
  C8. An error from opening the left or the right iterator, from
  \<^verbatim>\<open>BlockBuilder\<close>, from \<^verbatim>\<open>AddCols\<close> or from retrieving a step is what
  \<^verbatim>\<open>Process\<close> returns, unchanged and without a block. Each line holds
  whenever the call that fails is reached: the earlier calls succeeded and
  the steps before the failing one were streamed.
\<close>

theorem Process_propagates_errors:
  "(StepIter lhs = Inl err \<longrightarrow> fst (Process hashFunc order c lhs rhs) = Err err) \<and>
   (StepIter lhs = Inr lIter \<and> StepIter rhs = Inl err \<longrightarrow>
      fst (Process hashFunc order c lhs rhs) = Err err) \<and>
   (StepIter lhs = Inr lIter \<and> StepIter rhs = Inr rIter \<and>
    StepCount lIter = StepCount rIter \<and>
    buildErr (controller c) (Meta lIter) (takenOf hashFunc order c lIter rIter) = Some err \<longrightarrow>
      fst (Process hashFunc order c lhs rhs) = Err err) \<and>
   (StepIter lhs = Inr lIter \<and> StepIter rhs = Inr rIter \<and>
    StepCount lIter = StepCount rIter \<and>
    buildErr (controller c) (Meta lIter) (takenOf hashFunc order c lIter rIter) = None \<and>
    colsErr (controller c) (StepCount lIter) = Some err \<longrightarrow>
      fst (Process hashFunc order c lhs rhs) = Err err) \<and>
   (StepIter lhs = Inr lIter \<and> StepIter rhs = Inr rIter \<and>
    StepCount lIter = StepCount rIter \<and>
    buildErr (controller c) (Meta lIter) (takenOf hashFunc order c lIter rIter) = None \<and>
    colsErr (controller c) (StepCount lIter) = None \<and>
    steps lIter = map Inr valss @ Inl err # rest \<and>
    list_all (inBounds (exclusion hashFunc order c (SeriesMeta lIter) (SeriesMeta rIter))) valss \<longrightarrow>
      fst (Process hashFunc order c lhs rhs) = Err err)"
proof (intro conjI impI)
  assume "StepIter lhs = Inl err"
  then show "fst (Process hashFunc order c lhs rhs) = Err err"
    unfolding Process_def by simp
next
  assume "StepIter lhs = Inr lIter \<and> StepIter rhs = Inl err"
  then show "fst (Process hashFunc order c lhs rhs) = Err err"
    unfolding Process_def by simp
next
  assume h: "StepIter lhs = Inr lIter \<and> StepIter rhs = Inr rIter \<and>
    StepCount lIter = StepCount rIter \<and>
    buildErr (controller c) (Meta lIter) (takenOf hashFunc order c lIter rIter) = Some err"
  then have o: "StepIter lhs = Inr lIter" "StepIter rhs = Inr rIter"
    "StepCount lIter = StepCount rIter" by simp_all
  from h show "fst (Process hashFunc order c lhs rhs) = Err err"
    unfolding Process_opened [OF o] by simp
next
  assume h: "StepIter lhs = Inr lIter \<and> StepIter rhs = Inr rIter \<and>
    StepCount lIter = StepCount rIter \<and>
    buildErr (controller c) (Meta lIter) (takenOf hashFunc order c lIter rIter) = None \<and>
    colsErr (controller c) (StepCount lIter) = Some err"
  then have o: "StepIter lhs = Inr lIter" "StepIter rhs = Inr rIter"
    "StepCount lIter = StepCount rIter" by simp_all
  from h have b: "buildErr (controller c) (Meta lIter) (takenOf hashFunc order c lIter rIter) = None"
    and a: "colsErr (controller c) (StepCount lIter) = Some err" by blast+
  show "fst (Process hashFunc order c lhs rhs) = Err err"
    unfolding Process_opened [OF o] by (simp add: a b)
next
  assume h: "StepIter lhs = Inr lIter \<and> StepIter rhs = Inr rIter \<and>
    StepCount lIter = StepCount rIter \<and>
    buildErr (controller c) (Meta lIter) (takenOf hashFunc order c lIter rIter) = None \<and>
    colsErr (controller c) (StepCount lIter) = None \<and>
    steps lIter = map Inr valss @ Inl err # rest \<and>
    list_all (inBounds (exclusion hashFunc order c (SeriesMeta lIter) (SeriesMeta rIter))) valss"
  then have o: "StepIter lhs = Inr lIter" "StepIter rhs = Inr rIter"
    "StepCount lIter = StepCount rIter" by simp_all
  from h have b: "buildErr (controller c) (Meta lIter) (takenOf hashFunc order c lIter rIter) = None"
    and a: "colsErr (controller c) (StepCount lIter) = None" by blast+
  from h have "addValuesFrom (exclusion hashFunc order c (SeriesMeta lIter) (SeriesMeta rIter))
      (steps lIter) 0 bld = Err err" for bld
    by (simp add: addValuesFrom_stops_at_error)
  then show "fst (Process hashFunc order c lhs rhs) = Err err"
    unfolding Process_opened [OF o] by (simp add: a b)
qed

theorem Process_propagates_errors_witness:
  "fst (Process sampleHash [] sampleNode
          \<lparr>StepIter = Inl (ErrCollaborator ''left'')\<rparr>
          (sampleBlock 2 [seriesR] [Inr [7], Inr [8]])) = Err (ErrCollaborator ''left'') \<and>
   fst (Process sampleHash [] sampleNode
          (sampleBlock 2 [seriesA, seriesB] [Inr [1, 2], Inr [3, 4]])
          \<lparr>StepIter = Inl (ErrCollaborator ''right'')\<rparr>) = Err (ErrCollaborator ''right'') \<and>
   fst (Process sampleHash []
          (sampleNode\<lparr>controller :=
             sampleController\<lparr>buildErr := \<lambda>meta seriesMeta. Some (ErrCollaborator ''builder'')\<rparr>\<rparr>)
          (sampleBlock 2 [seriesA, seriesB] [Inr [1, 2], Inr [3, 4]])
          (sampleBlock 2 [seriesR] [Inr [7], Inr [8]])) = Err (ErrCollaborator ''builder'') \<and>
   fst (Process sampleHash []
          (sampleNode\<lparr>controller :=
             sampleController\<lparr>colsErr := \<lambda>n. Some (ErrCollaborator ''columns'')\<rparr>\<rparr>)
          (sampleBlock 2 [seriesA, seriesB] [Inr [1, 2], Inr [3, 4]])
          (sampleBlock 2 [seriesR] [Inr [7], Inr [8]])) = Err (ErrCollaborator ''columns'') \<and>
   fst (Process sampleHash [] sampleNode
          (sampleBlock 2 [seriesA, seriesB] [Inr [1, 2], Inl (ErrCollaborator ''step'')])
          (sampleBlock 2 [seriesR] [Inr [7], Inr [8]])) = Err (ErrCollaborator ''step'')"
proof -
  let ?rIter = "sampleIter 2 [seriesR] [Inr [7], Inr [8]]"
  let ?rhs = "sampleBlock 2 [seriesR] [Inr [7], Inr [8]]"
  let ?lIter = "sampleIter 2 [seriesA, seriesB] [Inr [1, 2], Inr [3, 4]]"
  let ?lhs = "sampleBlock 2 [seriesA, seriesB] [Inr [1, 2], Inr [3, 4]]"
  let ?lIter' = "sampleIter 2 [seriesA, seriesB] [Inr [1, 2], Inl (ErrCollaborator ''step'')]"
  let ?lhs' = "sampleBlock 2 [seriesA, seriesB] [Inr [1, 2], Inl (ErrCollaborator ''step'')]"
  let ?cb = "sampleNode\<lparr>controller :=
             sampleController\<lparr>buildErr := \<lambda>meta seriesMeta. Some (ErrCollaborator ''builder'')\<rparr>\<rparr>"
  let ?cc = "sampleNode\<lparr>controller :=
             sampleController\<lparr>colsErr := \<lambda>n. Some (ErrCollaborator ''columns'')\<rparr>\<rparr>"
  have l: "StepIter ?lhs = Inr ?lIter" by (simp add: sampleBlock_def)
  have l': "StepIter ?lhs' = Inr ?lIter'" by (simp add: sampleBlock_def)
  have r: "StepIter ?rhs = Inr ?rIter" by (simp add: sampleBlock_def)
  have n: "StepCount ?lIter = StepCount ?rIter" by (simp add: sampleIter_def)
  have n': "StepCount ?lIter' = StepCount ?rIter" by (simp add: sampleIter_def)
  have 1: "fst (Process sampleHash [] sampleNode \<lparr>StepIter = Inl (ErrCollaborator ''left'')\<rparr> ?rhs)
      = Err (ErrCollaborator ''left'')"
    using Process_propagates_errors [where lhs = "\<lparr>StepIter = Inl (ErrCollaborator ''left'')\<rparr>"
        and err = "ErrCollaborator ''left''" and hashFunc = sampleHash and order = "[]"
        and c = sampleNode and rhs = ?rhs]
    by simp
  have 2: "fst (Process sampleHash [] sampleNode ?lhs \<lparr>StepIter = Inl (ErrCollaborator ''right'')\<rparr>)
      = Err (ErrCollaborator ''right'')"
    using l Process_propagates_errors [where lhs = ?lhs and lIter = ?lIter
        and err = "ErrCollaborator ''right''" and hashFunc = sampleHash and order = "[]"
        and c = sampleNode and rhs = "\<lparr>StepIter = Inl (ErrCollaborator ''right'')\<rparr>"]
    by simp
  have b3: "buildErr (controller ?cb) (Meta ?lIter) (takenOf sampleHash [] ?cb ?lIter ?rIter)
      = Some (ErrCollaborator ''builder'')"
    by (simp add: sampleController_def)
  have 3: "fst (Process sampleHash [] ?cb ?lhs ?rhs) = Err (ErrCollaborator ''builder'')"
    using l r n b3 Process_propagates_errors [where lhs = ?lhs and lIter = ?lIter
        and rhs = ?rhs and rIter = ?rIter
        and err = "ErrCollaborator ''builder''" and hashFunc = sampleHash and order = "[]"
        and c = ?cb]
    by blast
  have b4: "buildErr (controller ?cc) (Meta ?lIter) (takenOf sampleHash [] ?cc ?lIter ?rIter) = None"
    by (simp add: sampleController_def)
  have a4: "colsErr (controller ?cc) (StepCount ?lIter) = Some (ErrCollaborator ''columns'')"
    by (simp add: sampleController_def)
  have 4: "fst (Process sampleHash [] ?cc ?lhs ?rhs) = Err (ErrCollaborator ''columns'')"
    using l r n b4 a4 Process_propagates_errors [where lhs = ?lhs and lIter = ?lIter
        and rhs = ?rhs and rIter = ?rIter
        and err = "ErrCollaborator ''columns''" and hashFunc = sampleHash and order = "[]"
        and c = ?cc]
    by blast
  have b5: "buildErr (controller sampleNode) (Meta ?lIter') (takenOf sampleHash [] sampleNode ?lIter' ?rIter) = None"
    by (simp add: sampleNode_def NewUnlessNode_def sampleController_def)
  have a5: "colsErr (controller sampleNode) (StepCount ?lIter') = None"
    by (simp add: sampleNode_def NewUnlessNode_def sampleController_def)
  have s5: "steps ?lIter' = map Inr [[1, 2]] @ Inl (ErrCollaborator ''step'') # []"
    by (simp add: sampleIter_def)
  have e5: "exclusion sampleHash [] sampleNode [seriesA, seriesB] [seriesR] = [0, 1]"
    by code_simp
  have v5: "list_all (inBounds (exclusion sampleHash [] sampleNode (SeriesMeta ?lIter') (SeriesMeta ?rIter)))
      [[1, 2]]"
    by (simp add: sampleIter_def e5)
  have 5: "fst (Process sampleHash [] sampleNode ?lhs' ?rhs) = Err (ErrCollaborator ''step'')"
    using l' r n' b5 a5 s5 v5 Process_propagates_errors [where lhs = ?lhs' and lIter = ?lIter'
        and rhs = ?rhs and rIter = ?rIter and valss = "[[1, 2]]" and rest = "[]"
        and err = "ErrCollaborator ''step''" and hashFunc = sampleHash and order = "[]"
        and c = sampleNode]
    by blast
  from 1 2 3 4 5 show ?thesis by blast
qed

text \<open>
  C2. When two left series have the same signature, the earlier one is never
  among the indices that \<^verbatim>\<open>exclusion\<close> returns, whatever the right side is,
  and it is absent from the series of any block that \<^verbatim>\<open>Process\<close> returns;
  a left series is returned exactly when no later left series and no right
  series has its signature. In particular, for three left series of which
  the first and the third have the same signature and the second another
  one, and a right side without series, \<^verbatim>\<open>exclusion\<close> returns the indices 1
  and 2, and the block that \<^verbatim>\<open>Process\<close> returns holds exactly the second and
  the third series: the first one is dropped.
\<close>

theorem Process_duplicate_signature_collapse:
  "(i < j \<and> j < length ls \<and> sigOf hashFunc c (ls ! i) = sigOf hashFunc c (ls ! j) \<longrightarrow>
      int i \<notin> set (exclusion hashFunc order c ls rs)) \<and>
   (j < length ls \<longrightarrow>
      (int j \<in> set (exclusion hashFunc order c ls rs) \<longleftrightarrow>
         sigOf hashFunc c (ls ! j) \<notin> sigOf hashFunc c ` set (drop (Suc j) ls) \<and>
         sigOf hashFunc c (ls ! j) \<notin> sigOf hashFunc c ` set rs)) \<and>
   (StepIter lhs = Inr lIter \<and> StepIter rhs = Inr rIter \<and>
    fst (Process hashFunc order c lhs rhs) = Ok blk \<and>
    i < j \<and> j < length (SeriesMeta lIter) \<and>
    sigOf hashFunc c (SeriesMeta lIter ! i) = sigOf hashFunc c (SeriesMeta lIter ! j) \<longrightarrow>
      outSeriesMeta blk =
        nths (SeriesMeta lIter)
          (nat ` set (exclusion hashFunc order c (SeriesMeta lIter) (SeriesMeta rIter))) \<and>
      i \<notin> nat ` set (exclusion hashFunc order c (SeriesMeta lIter) (SeriesMeta rIter))) \<and>
   (sigOf hashFunc c sc = sigOf hashFunc c sa \<and> sigOf hashFunc c sb \<noteq> sigOf hashFunc c sa \<longrightarrow>
      exclusion hashFunc order c [sa, sb, sc] [] = [1, 2]) \<and>
   (sigOf hashFunc c sc = sigOf hashFunc c sa \<and> sigOf hashFunc c sb \<noteq> sigOf hashFunc c sa \<and>
    StepIter lhs = Inr lIter \<and> StepIter rhs = Inr rIter \<and>
    SeriesMeta lIter = [sa, sb, sc] \<and> SeriesMeta rIter = [] \<and>
    fst (Process hashFunc order c lhs rhs) = Ok blk \<longrightarrow>
      outSeriesMeta blk = [sb, sc])"
proof (intro conjI impI)
  assume "i < j \<and> j < length ls \<and> sigOf hashFunc c (ls ! i) = sigOf hashFunc c (ls ! j)"
  then have "i < j" "j < length ls" "sigOf hashFunc c (ls ! i) = sigOf hashFunc c (ls ! j)"
    by simp_all
  then show "int i \<notin> set (exclusion hashFunc order c ls rs)"
    by (rule exclusion_drops_earlier_duplicate)
next
  assume "j < length ls"
  then show "int j \<in> set (exclusion hashFunc order c ls rs) \<longleftrightarrow>
         sigOf hashFunc c (ls ! j) \<notin> sigOf hashFunc c ` set (drop (Suc j) ls) \<and>
         sigOf hashFunc c (ls ! j) \<notin> sigOf hashFunc c ` set rs"
    by (rule exclusion_keeps_last_iff)
next
  assume h: "StepIter lhs = Inr lIter \<and> StepIter rhs = Inr rIter \<and>
    fst (Process hashFunc order c lhs rhs) = Ok blk \<and>
    i < j \<and> j < length (SeriesMeta lIter) \<and>
    sigOf hashFunc c (SeriesMeta lIter ! i) = sigOf hashFunc c (SeriesMeta lIter ! j)"
  then have "StepIter lhs = Inr lIter" and "StepIter rhs = Inr rIter"
    and "fst (Process hashFunc order c lhs rhs) = Ok blk" by simp_all
  then show "outSeriesMeta blk =
      nths (SeriesMeta lIter)
        (nat ` set (exclusion hashFunc order c (SeriesMeta lIter) (SeriesMeta rIter)))"
    by (rule Process_series_nths)
next
  assume h: "StepIter lhs = Inr lIter \<and> StepIter rhs = Inr rIter \<and>
    fst (Process hashFunc order c lhs rhs) = Ok blk \<and>
    i < j \<and> j < length (SeriesMeta lIter) \<and>
    sigOf hashFunc c (SeriesMeta lIter ! i) = sigOf hashFunc c (SeriesMeta lIter ! j)"
  then have "i < j" "j < length (SeriesMeta lIter)"
    "sigOf hashFunc c (SeriesMeta lIter ! i) = sigOf hashFunc c (SeriesMeta lIter ! j)" by simp_all
  then have "int i \<notin> set (exclusion hashFunc order c (SeriesMeta lIter) (SeriesMeta rIter))"
    by (rule exclusion_drops_earlier_duplicate)
  then show "i \<notin> nat ` set (exclusion hashFunc order c (SeriesMeta lIter) (SeriesMeta rIter))"
    by (simp only: nat_image_exclusion not_False_eq_True)
next
  assume "sigOf hashFunc c sc = sigOf hashFunc c sa \<and> sigOf hashFunc c sb \<noteq> sigOf hashFunc c sa"
  then have "sigOf hashFunc c sc = sigOf hashFunc c sa" "sigOf hashFunc c sb \<noteq> sigOf hashFunc c sa"
    by simp_all
  then show "exclusion hashFunc order c [sa, sb, sc] [] = [1, 2]"
    by (rule exclusion_three_collapse)
next
  assume h: "sigOf hashFunc c sc = sigOf hashFunc c sa \<and> sigOf hashFunc c sb \<noteq> sigOf hashFunc c sa \<and>
    StepIter lhs = Inr lIter \<and> StepIter rhs = Inr rIter \<and>
    SeriesMeta lIter = [sa, sb, sc] \<and> SeriesMeta rIter = [] \<and>
    fst (Process hashFunc order c lhs rhs) = Ok blk"
  then have s: "sigOf hashFunc c sc = sigOf hashFunc c sa" "sigOf hashFunc c sb \<noteq> sigOf hashFunc c sa"
    and l: "StepIter lhs = Inr lIter" and r: "StepIter rhs = Inr rIter"
    and m: "SeriesMeta lIter = [sa, sb, sc]" "SeriesMeta rIter = []"
    and p: "fst (Process hashFunc order c lhs rhs) = Ok blk" by simp_all
  have e: "exclusion hashFunc order c [sa, sb, sc] [] = [1, 2]"
    using s by (rule exclusion_three_collapse)
  from Process_Ok_D [OF p l r]
  have "outSeriesMeta blk = takenOf hashFunc order c lIter rIter" by auto
  then show "outSeriesMeta blk = [sb, sc]"
    by (simp add: takenOf_def m e)
qed

theorem Process_duplicate_signature_collapse_witness:
  "int 0 \<notin> set (exclusion sampleHash [] sampleNode [seriesA, seriesB, seriesC] [seriesR]) \<and>
   int 2 \<in> set (exclusion sampleHash [] sampleNode [seriesA, seriesB, seriesC] [seriesR]) \<and>
   exclusion sampleHash [] sampleNode [seriesA, seriesB, seriesC] [] = [1, 2] \<and>
   fst (Process sampleHash [] sampleNode
          (sampleBlock 2 [seriesA, seriesB, seriesC] [Inr [10, 20, 30], Inr [11, 21, 31]])
          (sampleBlock 2 [] [Inr [], Inr []])) =
     Ok \<lparr>outMeta = sampleMeta, outSeriesMeta = [seriesB, seriesC], outCols = 2,
       outAppended = [(0, 20), (0, 30), (1, 21), (1, 31)]\<rparr> \<and>
   outSeriesMeta \<lparr>outMeta = sampleMeta, outSeriesMeta = [seriesB, seriesC], outCols = 2,
       outAppended = [(0, 20), (0, 30), (1, 21), (1, 31)]\<rparr> = [seriesB, seriesC] \<and>
   (0::nat) \<notin> nat ` set (exclusion sampleHash [] sampleNode [seriesA, seriesB, seriesC] [])"
proof -
  let ?lIter = "sampleIter 2 [seriesA, seriesB, seriesC] [Inr [10, 20, 30], Inr [11, 21, 31]]"
  let ?rIter = "sampleIter 2 [] [Inr [], Inr []]"
  let ?lhs = "sampleBlock 2 [seriesA, seriesB, seriesC] [Inr [10, 20, 30], Inr [11, 21, 31]]"
  let ?rhs = "sampleBlock 2 [] [Inr [], Inr []]"
  let ?blk = "\<lparr>outMeta = sampleMeta, outSeriesMeta = [seriesB, seriesC], outCols = 2,
       outAppended = [(0, 20), (0, 30), (1, 21), (1, 31)]\<rparr>"
  have l: "StepIter ?lhs = Inr ?lIter" by (simp add: sampleBlock_def)
  have r: "StepIter ?rhs = Inr ?rIter" by (simp add: sampleBlock_def)
  have ml: "SeriesMeta ?lIter = [seriesA, seriesB, seriesC]" by (simp add: sampleIter_def)
  have mr: "SeriesMeta ?rIter = []" by (simp add: sampleIter_def)
  have ca: "sigOf sampleHash sampleNode seriesC = sigOf sampleHash sampleNode seriesA"
    by (simp add: sigOf_def seriesA_def seriesC_def)
  have ba: "sigOf sampleHash sampleNode seriesB \<noteq> sigOf sampleHash sampleNode seriesA"
    by code_simp
  have cr: "sigOf sampleHash sampleNode seriesC \<noteq> sigOf sampleHash sampleNode seriesR"
    by code_simp
  have p: "fst (Process sampleHash [] sampleNode ?lhs ?rhs) = Ok ?blk"
    by code_simp
  note t = Process_duplicate_signature_collapse
    [where i = 0 and j = 2 and ls = "[seriesA, seriesB, seriesC]" and rs = "[seriesR]"
       and hashFunc = sampleHash and c = sampleNode and order = "[]"
       and lhs = ?lhs and rhs = ?rhs and lIter = ?lIter and rIter = ?rIter and blk = ?blk
       and sa = seriesA and sb = seriesB and sc = seriesC]
  from t have "(0::nat) < 2 \<and> 2 < length [seriesA, seriesB, seriesC] \<and>
      sigOf sampleHash sampleNode ([seriesA, seriesB, seriesC] ! 0) =
      sigOf sampleHash sampleNode ([seriesA, seriesB, seriesC] ! 2) \<longrightarrow>
      int 0 \<notin> set (exclusion sampleHash [] sampleNode [seriesA, seriesB, seriesC] [seriesR])"
    by (rule conjunct1)
  with ca have 1: "int 0 \<notin> set (exclusion sampleHash [] sampleNode [seriesA, seriesB, seriesC] [seriesR])"
    by simp
  from t have "2 < length [seriesA, seriesB, seriesC] \<longrightarrow>
      (int 2 \<in> set (exclusion sampleHash [] sampleNode [seriesA, seriesB, seriesC] [seriesR]) \<longleftrightarrow>
         sigOf sampleHash sampleNode ([seriesA, seriesB, seriesC] ! 2) \<notin>
           sigOf sampleHash sampleNode ` set (drop (Suc 2) [seriesA, seriesB, seriesC]) \<and>
         sigOf sampleHash sampleNode ([seriesA, seriesB, seriesC] ! 2) \<notin>
           sigOf sampleHash sampleNode ` set [seriesR])"
    by blast
  with cr have 2: "int 2 \<in> set (exclusion sampleHash [] sampleNode [seriesA, seriesB, seriesC] [seriesR])"
    by simp
  from t ca ba have 3: "exclusion sampleHash [] sampleNode [seriesA, seriesB, seriesC] [] = [1, 2]"
    by blast
  from t ca ba l r ml mr p have 4: "outSeriesMeta ?blk = [seriesB, seriesC]"
    by blast
  from t have "StepIter ?lhs = Inr ?lIter \<and> StepIter ?rhs = Inr ?rIter \<and>
    fst (Process sampleHash [] sampleNode ?lhs ?rhs) = Ok ?blk \<and>
    (0::nat) < 2 \<and> 2 < length (SeriesMeta ?lIter) \<and>
    sigOf sampleHash sampleNode (SeriesMeta ?lIter ! 0) = sigOf sampleHash sampleNode (SeriesMeta ?lIter ! 2) \<longrightarrow>
      outSeriesMeta ?blk =
        nths (SeriesMeta ?lIter)
          (nat ` set (exclusion sampleHash [] sampleNode (SeriesMeta ?lIter) (SeriesMeta ?rIter))) \<and>
      0 \<notin> nat ` set (exclusion sampleHash [] sampleNode (SeriesMeta ?lIter) (SeriesMeta ?rIter))"
    by blast
  with l r p ca have 5: "(0::nat) \<notin> nat ` set (exclusion sampleHash [] sampleNode [seriesA, seriesB, seriesC] [])"
    by (simp add: ml mr)
  from 1 2 3 4 5 p show ?thesis by blast
qed

text \<open>
  C1. The file documents the operator as using all values from the left
  side which do not exist in the right side. On the left series A{tag=x},
  B{tag=y}, C{tag=x} and the right series R{tag=z}, matching on \<open>tag\<close>, no
  right series has the signature of A, yet the block that \<^verbatim>\<open>Process\<close>
  returns holds B and C only, with their values.
\<close>

theorem Process_drops_unmatched_left_series:
  "sigOf sampleHash sampleNode seriesA \<notin> sigOf sampleHash sampleNode ` set [seriesR] \<and>
   fst (Process sampleHash [] sampleNode
          (sampleBlock 2 [seriesA, seriesB, seriesC] [Inr [1, 2, 3], Inr [4, 5, 6]])
          (sampleBlock 2 [seriesR] [Inr [7], Inr [8]])) =
     Ok \<lparr>outMeta = sampleMeta, outSeriesMeta = [seriesB, seriesC], outCols = 2,
       outAppended = [(0, 2), (0, 3), (1, 5), (1, 6)]\<rparr>"
  by code_simp

text \<open>
  C6. On the left series A{tag=x}, C{tag=x} and a right side without
  series, matching on \<open>tag\<close>, the block that \<^verbatim>\<open>Process\<close> returns holds C
  only, with the second value of each step: it is not the left block.
\<close>

theorem Process_empty_right_drops_left_series:
  "fst (Process sampleHash [] sampleNode
          (sampleBlock 2 [seriesA, seriesC] [Inr [1, 2], Inr [3, 4]])
          (sampleBlock 2 [] [Inr [], Inr []])) =
     Ok \<lparr>outMeta = sampleMeta, outSeriesMeta = [seriesC], outCols = 2,
       outAppended = [(0, 2), (1, 4)]\<rparr>"
  by code_simp

end
